theory Spec2Isabelle
  imports Complex_Main "HOL-Library.Word"
begin

section \<open>Piece size selection (main.go, calculatePieceSize)\<close>

definition P_MIN :: int where "P_MIN = 256 * 1024"
definition P_CAP :: int where "P_CAP = 4 * 1024 * 1024"
definition P_MAX :: int where "P_MAX = 64 * 1024 * 1024"
definition N_THRESHOLD :: int where "N_THRESHOLD = 7500"
definition CHUNK_SIZE :: int where "CHUNK_SIZE = 32 * 1024 * 1024"

text \<open>
  \<open>calculatePieceSize\<close> computes on \<open>float64\<close> through the \<open>math\<close> package. The
  operations it calls are collected in a record, so that the function is written once,
  for any arithmetic on a carrier \<open>'f\<close>: \<open>float64_of\<close> is the conversion
  \<open>float64(n)\<close> of an integer (also of the untyped constants 2, 10 and \<open>N_THRESHOLD\<close>),
  \<open>int64_of\<close> the conversion \<open>int64(x)\<close>.
\<close>

record 'f float64_ops =
  float64_of :: "int \<Rightarrow> 'f"
  int64_of :: "'f \<Rightarrow> int"
  math_Log2 :: "'f \<Rightarrow> 'f"
  math_Floor :: "'f \<Rightarrow> 'f"
  math_Pow :: "'f \<Rightarrow> 'f \<Rightarrow> 'f"
  math_Max :: "'f \<Rightarrow> 'f \<Rightarrow> 'f"
  f_sub :: "'f \<Rightarrow> 'f \<Rightarrow> 'f"
  f_div :: "'f \<Rightarrow> 'f \<Rightarrow> 'f"
  f_gt :: "'f \<Rightarrow> 'f \<Rightarrow> bool"

definition calculatePieceSize :: "'f float64_ops \<Rightarrow> int \<Rightarrow> int" where
  "calculatePieceSize fp total' =
    (if total' \<le> 0 then P_MIN
     else
       let logExp = math_Floor fp (f_sub fp (math_Log2 fp (float64_of fp total')) (float64_of fp 10));
           baseLog = int64_of fp (math_Max fp (float64_of fp P_MIN) (math_Pow fp (float64_of fp 2) logExp));
           current = baseLog;
           current = (if current > P_CAP then P_CAP else current);
           currentPieces = f_div fp (float64_of fp total') (float64_of fp current);
           current =
             (if f_gt fp currentPieces (float64_of fp N_THRESHOLD) then
                let target = f_div fp (float64_of fp total') (float64_of fp N_THRESHOLD);
                    stepped = int64_of fp (math_Pow fp (float64_of fp 2) (math_Floor fp (math_Log2 fp target)));
                    stepped = (if stepped < P_CAP then P_CAP else stepped);
                    stepped = (if stepped > P_MAX then P_MAX else stepped)
                in stepped
              else current)
       in if current < P_MIN then P_MIN else current)"

text \<open>
  The same operations in exact arithmetic over the reals: \<open>int64(x)\<close> truncates towards
  zero, \<open>math.Pow(2, y)\<close> is \<open>2 powr y\<close>.
\<close>

definition real_trunc :: "real \<Rightarrow> int" where
  "real_trunc x = (if 0 \<le> x then \<lfloor>x\<rfloor> else \<lceil>x\<rceil>)"

definition exact_ops :: "real float64_ops" where
  "exact_ops =
     \<lparr> float64_of = real_of_int,
       int64_of = real_trunc,
       math_Log2 = log 2,
       math_Floor = (\<lambda>x. real_of_int \<lfloor>x\<rfloor>),
       math_Pow = (\<lambda>x y. x powr y),
       math_Max = max,
       f_sub = (\<lambda>x y. x - y),
       f_div = (\<lambda>x y. x / y),
       f_gt = (\<lambda>x y. x > y) \<rparr>"

text \<open>
  The algorithm of the specification, section 4.1, over the reals, step by step as it is
  worded there.
\<close>

definition select_piece_length :: "int \<Rightarrow> int" where
  "select_piece_length total_bytes =
    (if total_bytes \<le> 0 then P_MIN
     else
       let exp = \<lfloor>log 2 (real_of_int total_bytes) - 10\<rfloor>;
           base = max (real_of_int P_MIN) (2 powr (real_of_int exp));
           current = min base (real_of_int P_CAP);
           current =
             (if real_of_int total_bytes / current > real_of_int N_THRESHOLD then
                let target = real_of_int total_bytes / real_of_int N_THRESHOLD;
                    stepped = 2 powr (real_of_int \<lfloor>log 2 target\<rfloor>)
                in min (max stepped (real_of_int P_CAP)) (real_of_int P_MAX)
              else current)
       in \<lfloor>max current (real_of_int P_MIN)\<rfloor>)"

section \<open>Hashes and byte strings\<close>

type_synonym byte = "8 word"

text \<open>
  A \<open>hash.Hash\<close> value: the digest function of its algorithm and the bytes written
  since the last \<open>Reset\<close>. \<open>hash_Sum\<close> is \<open>h.Sum(nil)\<close>, which leaves the state as
  it is.
\<close>

record hash_Hash =
  hash_alg :: "byte list \<Rightarrow> byte list"
  hash_written :: "byte list"

definition hash_New :: "(byte list \<Rightarrow> byte list) \<Rightarrow> hash_Hash" where
  "hash_New alg = \<lparr> hash_alg = alg, hash_written = [] \<rparr>"

definition hash_Write :: "hash_Hash \<Rightarrow> byte list \<Rightarrow> hash_Hash" where
  "hash_Write h p = h\<lparr> hash_written := hash_written h @ p \<rparr>"

definition hash_Sum :: "hash_Hash \<Rightarrow> byte list" where
  "hash_Sum h = hash_alg h (hash_written h)"

definition hash_Reset :: "hash_Hash \<Rightarrow> hash_Hash" where
  "hash_Reset h = h\<lparr> hash_written := [] \<rparr>"

definition hextable :: string where
  "hextable = ''0123456789abcdef''"

definition hex_EncodeToString :: "byte list \<Rightarrow> string" where
  "hex_EncodeToString src =
     concat (map (\<lambda>b. [hextable ! (unat b div 16), hextable ! (unat b mod 16)]) src)"

text \<open>
  \<open>int64\<close> is the value an \<open>int64\<close> variable holds after an arithmetic result \<open>x\<close>
  is stored in it (two's complement wrap-around).
\<close>

definition int64 :: "int \<Rightarrow> int" where
  "int64 x = (x + 2 ^ 63) mod 2 ^ 64 - 2 ^ 63"

datatype panic = SliceBoundsOutOfRange

text \<open>
  The slice expression \<open>s[lo:hi]\<close>. It panics unless \<open>0 \<le> lo \<le> hi \<le> cap(s)\<close>;
  every \<open>hi\<close> below is at most \<open>len(s)\<close>, so the length stands for the capacity.
\<close>

definition go_slice :: "'a list \<Rightarrow> int \<Rightarrow> int \<Rightarrow> panic + 'a list" where
  "go_slice s lo hi =
     (if 0 \<le> lo \<and> lo \<le> hi \<and> hi \<le> int (length s)
      then Inr (take (nat (hi - lo)) (drop (nat lo) s))
      else Inl SliceBoundsOutOfRange)"

section \<open>The streaming hasher (main.go, MultiHasher)\<close>

record FileHashResult =
  RelPath :: string
  Size :: int
  FileSHA256 :: string
  PieceHashes :: "string list"
  Err :: "string option"

record MultiHasher =
  pieceSize :: int
  torrentPieceBuffer :: "byte list"
  torrentPieceSHA1 :: hash_Hash
  torrentPieces :: "byte list"
  fileSHA256 :: hash_Hash
  filePieceSHA256 :: hash_Hash
  filePieceBuffer :: int
  currentFilePieceList :: "string list"
  currentFileByteCount :: int
  currentFileRelPath :: string
  results :: "FileHashResult list"

text \<open>
  \<open>sha1.New\<close> and \<open>sha256.New\<close> are parameters: the digest functions of the two
  algorithms. The fields the composite literal leaves out hold their zero values.
\<close>

definition NewMultiHasher ::
  "(byte list \<Rightarrow> byte list) \<Rightarrow> (byte list \<Rightarrow> byte list) \<Rightarrow> int \<Rightarrow> MultiHasher" where
  "NewMultiHasher sha1 sha256 pieceSize' =
     \<lparr> pieceSize = pieceSize',
       torrentPieceBuffer = [],
       torrentPieceSHA1 = hash_New sha1,
       torrentPieces = [],
       fileSHA256 = hash_New sha256,
       filePieceSHA256 = hash_New sha256,
       filePieceBuffer = 0,
       currentFilePieceList = [],
       currentFileByteCount = 0,
       currentFileRelPath = [],
       results = [] \<rparr>"

definition StartFile :: "MultiHasher \<Rightarrow> string \<Rightarrow> MultiHasher" where
  "StartFile mh relPath =
     mh\<lparr> currentFileRelPath := relPath,
         fileSHA256 := hash_Reset (fileSHA256 mh),
         filePieceSHA256 := hash_Reset (filePieceSHA256 mh),
         filePieceBuffer := 0,
         currentFilePieceList := [],
         currentFileByteCount := 0 \<rparr>"

text \<open>
  The two loops of \<open>Write\<close>. A call has one of three outcomes: \<open>None\<close> when the loop
  never ends, \<open>Some (Inl p)\<close> when it panics, \<open>Some (Inr mh)\<close> when it returns with the
  hasher in state \<open>mh\<close>. \<open>filePieceBuffer\<close> and the buffer length stay between 0 and
  \<open>pieceSize\<close> wherever the loops do not panic, so their \<open>int64\<close> arithmetic is
  written without wrap-around; \<open>int\<close> is taken to be 64 bits wide.
\<close>

partial_function (option) file_piece_loop ::
  "byte list \<Rightarrow> int \<Rightarrow> MultiHasher \<Rightarrow> (panic + MultiHasher) option" where
  "file_piece_loop data offset mh =
     (if offset < int (length data) then
        let spaceLeftFile = pieceSize mh - filePieceBuffer mh;
            toWriteFile = int (length data) - offset;
            toWriteFile = (if toWriteFile > spaceLeftFile then spaceLeftFile else toWriteFile)
        in case go_slice data offset (offset + toWriteFile) of
             Inl p \<Rightarrow> Some (Inl p)
           | Inr chunk \<Rightarrow>
               let mh = mh\<lparr> filePieceSHA256 := hash_Write (filePieceSHA256 mh) chunk \<rparr>;
                   mh = mh\<lparr> filePieceBuffer := filePieceBuffer mh + toWriteFile \<rparr>;
                   mh = (if filePieceBuffer mh = pieceSize mh then
                           let h = hash_Sum (filePieceSHA256 mh)
                           in mh\<lparr> currentFilePieceList :=
                                    currentFilePieceList mh @ [hex_EncodeToString h],
                                  filePieceSHA256 := hash_Reset (filePieceSHA256 mh),
                                  filePieceBuffer := 0 \<rparr>
                         else mh)
               in file_piece_loop data (offset + toWriteFile) mh
      else Some (Inr mh))"

partial_function (option) torrent_piece_loop ::
  "byte list \<Rightarrow> int \<Rightarrow> MultiHasher \<Rightarrow> (panic + MultiHasher) option" where
  "torrent_piece_loop data offset mh =
     (if offset < int (length data) then
        let spaceLeftTorrent = pieceSize mh - int (length (torrentPieceBuffer mh));
            toWriteTorrent = int (length data) - offset;
            toWriteTorrent =
              (if toWriteTorrent > spaceLeftTorrent then spaceLeftTorrent else toWriteTorrent)
        in case go_slice data offset (offset + toWriteTorrent) of
             Inl p \<Rightarrow> Some (Inl p)
           | Inr chunk \<Rightarrow>
               let mh = mh\<lparr> torrentPieceBuffer := torrentPieceBuffer mh @ chunk \<rparr>;
                   mh = mh\<lparr> torrentPieceSHA1 := hash_Write (torrentPieceSHA1 mh) chunk \<rparr>;
                   offset = offset + toWriteTorrent;
                   mh = (if int (length (torrentPieceBuffer mh)) = pieceSize mh then
                           let sum = hash_Sum (torrentPieceSHA1 mh)
                           in mh\<lparr> torrentPieces := torrentPieces mh @ sum,
                                  torrentPieceBuffer := [],
                                  torrentPieceSHA1 := hash_Reset (torrentPieceSHA1 mh) \<rparr>
                         else mh)
               in torrent_piece_loop data offset mh
      else Some (Inr mh))"

text \<open>Sequencing of calls that may panic or not return.\<close>

definition and_then ::
  "(panic + 'a) option \<Rightarrow> ('a \<Rightarrow> (panic + 'b) option) \<Rightarrow> (panic + 'b) option" where
  "and_then r f = (case r of None \<Rightarrow> None | Some (Inl p) \<Rightarrow> Some (Inl p) | Some (Inr x) \<Rightarrow> f x)"

text \<open>\<open>Write\<close>; the \<open>error\<close> it returns is \<open>nil\<close> on its only return path.\<close>

definition Write :: "MultiHasher \<Rightarrow> byte list \<Rightarrow> (panic + MultiHasher) option" where
  "Write mh data =
     (let mh = mh\<lparr> fileSHA256 := hash_Write (fileSHA256 mh) data \<rparr>;
          mh = mh\<lparr> currentFileByteCount := int64 (currentFileByteCount mh + int (length data)) \<rparr>
      in and_then (file_piece_loop data 0 mh) (\<lambda>mh. torrent_piece_loop data 0 mh))"

definition EndFile :: "MultiHasher \<Rightarrow> FileHashResult \<times> MultiHasher" where
  "EndFile mh =
     (let fileSHA256Hex = hex_EncodeToString (hash_Sum (fileSHA256 mh));
          mh = (if filePieceBuffer mh > 0 then
                  let h = hash_Sum (filePieceSHA256 mh)
                  in mh\<lparr> currentFilePieceList := currentFilePieceList mh @ [hex_EncodeToString h] \<rparr>
                else mh);
          result = \<lparr> RelPath = currentFileRelPath mh,
                     Size = currentFileByteCount mh,
                     FileSHA256 = fileSHA256Hex,
                     PieceHashes = currentFilePieceList mh,
                     Err = None \<rparr>;
          mh = mh\<lparr> results := results mh @ [result] \<rparr>
      in (result, mh))"

definition Finalize :: "MultiHasher \<Rightarrow> MultiHasher" where
  "Finalize mh =
     (if length (torrentPieceBuffer mh) > 0 then
        let sum = hash_Sum (torrentPieceSHA1 mh)
        in mh\<lparr> torrentPieces := torrentPieces mh @ sum \<rparr>
      else mh)"

definition GetTorrentPieces :: "MultiHasher \<Rightarrow> byte list" where
  "GetTorrentPieces mh = torrentPieces mh"

definition GetResults :: "MultiHasher \<Rightarrow> FileHashResult list" where
  "GetResults mh = results mh"

section \<open>The ingestion loop (main.go, main)\<close>

text \<open>
  The loop of \<open>main\<close> over \<open>files\<close>. A file is its \<open>RelPath\<close> and what its reads
  return, an input: the list of the chunks \<open>buf[:n]\<close>, in order. A read of no bytes
  is not passed to \<open>Write\<close>. A file that cannot be opened or read ends the process
  (\<open>log.Fatalf\<close>); the loop is modelled where every open and read succeeds.
\<close>

fun read_loop :: "MultiHasher \<Rightarrow> byte list list \<Rightarrow> (panic + MultiHasher) option" where
  "read_loop mh [] = Some (Inr mh)"
| "read_loop mh (c # cs) =
     (if length c > 0 then and_then (Write mh c) (\<lambda>mh. read_loop mh cs)
      else read_loop mh cs)"

definition hash_file ::
  "MultiHasher \<Rightarrow> string \<times> byte list list \<Rightarrow> (panic + MultiHasher) option" where
  "hash_file mh fi =
     and_then (read_loop (StartFile mh (fst fi)) (snd fi)) (\<lambda>mh. Some (Inr (snd (EndFile mh))))"

fun hash_files ::
  "MultiHasher \<Rightarrow> (string \<times> byte list list) list \<Rightarrow> (panic + MultiHasher) option" where
  "hash_files mh [] = Some (Inr mh)"
| "hash_files mh (fi # files) = and_then (hash_file mh fi) (\<lambda>mh. hash_files mh files)"

definition hash_run ::
  "(byte list \<Rightarrow> byte list) \<Rightarrow> (byte list \<Rightarrow> byte list) \<Rightarrow> int \<Rightarrow>
   (string \<times> byte list list) list \<Rightarrow> (panic + MultiHasher) option" where
  "hash_run sha1 sha256 pieceSize' files =
     and_then (hash_files (NewMultiHasher sha1 sha256 pieceSize') files)
       (\<lambda>mh. Some (Inr (Finalize mh)))"

text \<open>Any sequence of calls on a hasher.\<close>

datatype call = CallStartFile string | CallWrite "byte list" | CallEndFile | CallFinalize

fun do_call :: "MultiHasher \<Rightarrow> call \<Rightarrow> (panic + MultiHasher) option" where
  "do_call mh (CallStartFile relPath) = Some (Inr (StartFile mh relPath))"
| "do_call mh (CallWrite data) = Write mh data"
| "do_call mh CallEndFile = Some (Inr (snd (EndFile mh)))"
| "do_call mh CallFinalize = Some (Inr (Finalize mh))"

fun do_calls :: "MultiHasher \<Rightarrow> call list \<Rightarrow> (panic + MultiHasher) option" where
  "do_calls mh [] = Some (Inr mh)"
| "do_calls mh (c # cs) = and_then (do_call mh c) (\<lambda>mh. do_calls mh cs)"

text \<open>The chunks of one file passed to \<open>Write\<close> one after the other.\<close>

fun write_all :: "MultiHasher \<Rightarrow> byte list list \<Rightarrow> (panic + MultiHasher) option" where
  "write_all mh [] = Some (Inr mh)"
| "write_all mh (c # cs) = and_then (Write mh c) (\<lambda>mh. write_all mh cs)"

section \<open>Mirror URLs (main.go, main)\<close>

definition strings_TrimRight :: "string \<Rightarrow> string \<Rightarrow> string" where
  "strings_TrimRight s cutset = rev (dropWhile (\<lambda>c. c \<in> set cutset) (rev s))"

definition strings_HasSuffix :: "string \<Rightarrow> string \<Rightarrow> bool" where
  "strings_HasSuffix s suffix =
     (length s \<ge> length suffix \<and> drop (length s - length suffix) s = suffix)"

text \<open>\<open>filepath.ToSlash\<close>, for the path separator of the platform.\<close>

definition filepath_ToSlash :: "char \<Rightarrow> string \<Rightarrow> string" where
  "filepath_ToSlash Separator path =
     (if Separator = CHR ''/'' then path
      else map (\<lambda>c. if c = Separator then CHR ''/'' else c) path)"

record MetalinkURL =
  Priority :: int
  Value :: string

text \<open>
  The name of a file in the metalink document and its list of URLs, for the file
  \<open>fi\<close> of the loop over \<open>files\<close>; \<open>isDir\<close> is \<open>info.IsDir()\<close>.
\<close>

definition metalink_name :: "char \<Rightarrow> bool \<Rightarrow> string \<Rightarrow> string \<Rightarrow> string" where
  "metalink_name Separator isDir baseName fiRelPath =
     (let relPath = filepath_ToSlash Separator fiRelPath
      in if isDir then baseName @ ''/'' @ filepath_ToSlash Separator fiRelPath else relPath)"

definition metalink_url :: "char \<Rightarrow> bool \<Rightarrow> string \<Rightarrow> string \<Rightarrow> string \<Rightarrow> string" where
  "metalink_url Separator isDir baseName fiRelPath m =
     (let relPath = metalink_name Separator isDir baseName fiRelPath;
          u = strings_TrimRight m ''/'' @ ''/'' @ relPath
      in if \<not> isDir \<and> strings_HasSuffix m fiRelPath then m else u)"

definition metalink_urls ::
  "char \<Rightarrow> bool \<Rightarrow> string \<Rightarrow> string \<Rightarrow> string list \<Rightarrow> MetalinkURL list" where
  "metalink_urls Separator isDir baseName fiRelPath Mirrors =
     map (\<lambda>(i, m). \<lparr> Priority = int i + 1,
                      Value = metalink_url Separator isDir baseName fiRelPath m \<rparr>)
       (enumerate 0 Mirrors)"

text \<open>The web seeds of the torrent (\<open>tor.URLList\<close>); \<open>nil\<close> is the empty list.\<close>

definition torrent_URLList :: "bool \<Rightarrow> string \<Rightarrow> string list \<Rightarrow> string list" where
  "torrent_URLList isDir baseName Mirrors =
     (if length Mirrors > 0 then
        if isDir then map (\<lambda>m. strings_TrimRight m ''/'' @ ''/'') Mirrors
        else map (\<lambda>m. if strings_HasSuffix m baseName then m
                       else strings_TrimRight m ''/'' @ ''/'' @ baseName) Mirrors
      else [])"

section \<open>Pieces of a byte stream\<close>

text \<open>
  The vocabulary of the properties: a stream cut into pieces of \<open>P\<close> bytes. The
  complete pieces, in order; the bytes after the last complete piece; and all pieces,
  the short last one included when it is not empty.
\<close>

fun full_pieces :: "nat \<Rightarrow> 'a list \<Rightarrow> 'a list list" where
  "full_pieces P xs =
     (if P = 0 \<or> length xs < P then [] else take P xs # full_pieces P (drop P xs))"

fun partial_piece :: "nat \<Rightarrow> 'a list \<Rightarrow> 'a list" where
  "partial_piece P xs =
     (if P = 0 \<or> length xs < P then xs else partial_piece P (drop P xs))"

definition pieces :: "nat \<Rightarrow> 'a list \<Rightarrow> 'a list list" where
  "pieces P xs = full_pieces P xs @ (if partial_piece P xs = [] then [] else [partial_piece P xs])"

text \<open>
  Piece accounting: the pieces \<open>ps\<close> make up the stream \<open>xs\<close>, each but the last has
  exactly \<open>P\<close> bytes, and the last has more than none and at most \<open>P\<close>.
\<close>

definition piece_accounting :: "nat \<Rightarrow> 'a list list \<Rightarrow> 'a list \<Rightarrow> bool" where
  "piece_accounting P ps xs =
     (concat ps = xs \<and> sum_list (map length ps) = length xs \<and>
      list_all (\<lambda>p. length p = P) (butlast ps) \<and>
      (ps = [] \<or> (0 < length (last ps) \<and> length (last ps) \<le> P)))"

text \<open>
  The states a hasher is in between calls: a positive piece size, both partial-piece
  counters below it, each counter the number of bytes its hash has been given since
  it was last reset, and the byte count a value of type \<open>int64\<close>.
\<close>

definition accumulating :: "MultiHasher \<Rightarrow> bool" where
  "accumulating mh =
     (0 < pieceSize mh \<and>
      0 \<le> filePieceBuffer mh \<and> filePieceBuffer mh < pieceSize mh \<and>
      filePieceBuffer mh = int (length (hash_written (filePieceSHA256 mh))) \<and>
      int (length (torrentPieceBuffer mh)) < pieceSize mh \<and>
      hash_written (torrentPieceSHA1 mh) = torrentPieceBuffer mh \<and>
      - (2 ^ 63) \<le> currentFileByteCount mh \<and> currentFileByteCount mh < 2 ^ 63)"

text \<open>The state each loop of \<open>Write\<close> leaves when it has consumed \<open>rest\<close>, in closed form.\<close>

definition file_pieces_written :: "MultiHasher \<Rightarrow> byte list \<Rightarrow> MultiHasher" where
  "file_pieces_written mh rest =
     (let P = nat (pieceSize mh);
          fs = hash_written (filePieceSHA256 mh) @ rest
      in mh\<lparr> filePieceSHA256 := (filePieceSHA256 mh)\<lparr> hash_written := partial_piece P fs \<rparr>,
             filePieceBuffer := int (length (partial_piece P fs)),
             currentFilePieceList := currentFilePieceList mh @
               map (\<lambda>p. hex_EncodeToString (hash_alg (filePieceSHA256 mh) p)) (full_pieces P fs) \<rparr>)"

definition torrent_pieces_written :: "MultiHasher \<Rightarrow> byte list \<Rightarrow> MultiHasher" where
  "torrent_pieces_written mh rest =
     (let P = nat (pieceSize mh);
          ts = torrentPieceBuffer mh @ rest
      in mh\<lparr> torrentPieceBuffer := partial_piece P ts,
             torrentPieceSHA1 := (torrentPieceSHA1 mh)\<lparr> hash_written := partial_piece P ts \<rparr>,
             torrentPieces := torrentPieces mh @
               concat (map (hash_alg (torrentPieceSHA1 mh)) (full_pieces P ts)) \<rparr>)"

text \<open>The state \<open>Write\<close> leaves, in closed form.\<close>

definition written :: "MultiHasher \<Rightarrow> byte list \<Rightarrow> MultiHasher" where
  "written mh data =
     (let P = nat (pieceSize mh);
          fs = hash_written (filePieceSHA256 mh) @ data;
          ts = torrentPieceBuffer mh @ data
      in mh\<lparr> fileSHA256 := hash_Write (fileSHA256 mh) data,
             currentFileByteCount := int64 (currentFileByteCount mh + int (length data)),
             filePieceSHA256 := (filePieceSHA256 mh)\<lparr> hash_written := partial_piece P fs \<rparr>,
             filePieceBuffer := int (length (partial_piece P fs)),
             currentFilePieceList := currentFilePieceList mh @
               map (\<lambda>p. hex_EncodeToString (hash_alg (filePieceSHA256 mh) p)) (full_pieces P fs),
             torrentPieceBuffer := partial_piece P ts,
             torrentPieceSHA1 := (torrentPieceSHA1 mh)\<lparr> hash_written := partial_piece P ts \<rparr>,
             torrentPieces := torrentPieces mh @
               concat (map (hash_alg (torrentPieceSHA1 mh)) (full_pieces P ts)) \<rparr>)"

text \<open>
  What a run is expected to produce: all bytes read, file after file, and the result of
  one file with digest function \<open>sha256\<close> and pieces of \<open>P\<close> bytes.
\<close>

definition all_bytes :: "(string \<times> byte list list) list \<Rightarrow> byte list" where
  "all_bytes files = concat (map (\<lambda>fi. concat (snd fi)) files)"

definition expected_result ::
  "(byte list \<Rightarrow> byte list) \<Rightarrow> nat \<Rightarrow> string \<times> byte list list \<Rightarrow> FileHashResult" where
  "expected_result sha256 P fi =
     \<lparr> RelPath = fst fi,
       Size = int64 (int (length (concat (snd fi)))),
       FileSHA256 = hex_EncodeToString (sha256 (concat (snd fi))),
       PieceHashes = map (\<lambda>p. hex_EncodeToString (sha256 p)) (pieces P (concat (snd fi))),
       Err = None \<rparr>"

section \<open>Pieces: basic facts\<close>

declare full_pieces.simps [simp del] partial_piece.simps [simp del]

lemma full_pieces_short: "length xs < P \<Longrightarrow> full_pieces P xs = []"
  by (subst full_pieces.simps) simp

lemma partial_piece_short: "length xs < P \<Longrightarrow> partial_piece P xs = xs"
  by (subst partial_piece.simps) simp

lemma full_pieces_step:
  "0 < P \<Longrightarrow> length xs = P \<Longrightarrow> full_pieces P (xs @ ys) = xs # full_pieces P ys"
  by (subst full_pieces.simps) simp

lemma partial_piece_step:
  "0 < P \<Longrightarrow> length xs = P \<Longrightarrow> partial_piece P (xs @ ys) = partial_piece P ys"
  by (subst partial_piece.simps) simp

lemma length_partial_piece: "0 < P \<Longrightarrow> length (partial_piece P xs) = length xs mod P"
proof (induction P xs rule: partial_piece.induct)
  case (1 P xs)
  show ?case
  proof (cases "length xs < P")
    case True
    then show ?thesis by (simp add: partial_piece_short)
  next
    case False
    with 1 have "length (partial_piece P (drop P xs)) = length (drop P xs) mod P" by simp
    moreover have "partial_piece P xs = partial_piece P (drop P xs)"
      using False "1.prems" by (subst partial_piece.simps) simp
    ultimately show ?thesis using False by (simp add: le_mod_geq)
  qed
qed

lemma length_full_pieces: "0 < P \<Longrightarrow> length (full_pieces P xs) = length xs div P"
proof (induction P xs rule: full_pieces.induct)
  case (1 P xs)
  show ?case
  proof (cases "length xs < P")
    case True
    then show ?thesis by (simp add: full_pieces_short)
  next
    case False
    with 1 have "length (full_pieces P (drop P xs)) = length (drop P xs) div P" by simp
    moreover have "full_pieces P xs = take P xs # full_pieces P (drop P xs)"
      using False "1.prems" by (subst full_pieces.simps) simp
    ultimately show ?thesis using False "1.prems" by (simp add: le_div_geq)
  qed
qed

lemma concat_full_pieces: "concat (full_pieces P xs) @ partial_piece P xs = xs"
proof (induction P xs rule: full_pieces.induct)
  case (1 P xs)
  show ?case
  proof (cases "P = 0 \<or> length xs < P")
    case True
    then show ?thesis
      by (subst full_pieces.simps, subst partial_piece.simps) simp
  next
    case False
    with 1 have "concat (full_pieces P (drop P xs)) @ partial_piece P (drop P xs) = drop P xs"
      by simp
    then show ?thesis
      using False by (subst full_pieces.simps, subst partial_piece.simps) simp
  qed
qed

lemma length_each_full_piece: "p \<in> set (full_pieces P xs) \<Longrightarrow> length p = P"
proof (induction P xs rule: full_pieces.induct)
  case (1 P xs)
  show ?case
  proof (cases "P = 0 \<or> length xs < P")
    case True
    with "1.prems" show ?thesis by (subst (asm) full_pieces.simps) simp
  next
    case False
    with "1.prems" have "p = take P xs \<or> p \<in> set (full_pieces P (drop P xs))"
      by (subst (asm) full_pieces.simps) simp
    with 1 False show ?thesis by auto
  qed
qed

lemma full_pieces_append:
  "full_pieces P (xs @ ys) = full_pieces P xs @ full_pieces P (partial_piece P xs @ ys)"
proof (induction P xs rule: full_pieces.induct)
  case (1 P xs)
  show ?case
  proof (cases "P = 0 \<or> length xs < P")
    case True
    have "full_pieces P xs = []"
      using True by (subst full_pieces.simps) simp
    moreover have "partial_piece P xs = xs"
      using True by (subst partial_piece.simps) simp
    ultimately show ?thesis by simp
  next
    case False
    with 1 have ih: "full_pieces P (drop P xs @ ys) =
        full_pieces P (drop P xs) @ full_pieces P (partial_piece P (drop P xs) @ ys)"
      by simp
    have a: "full_pieces P (xs @ ys) = take P xs # full_pieces P (drop P xs @ ys)"
      using False by (subst full_pieces.simps) simp
    have b: "full_pieces P xs = take P xs # full_pieces P (drop P xs)"
      using False by (subst full_pieces.simps) simp
    have c: "partial_piece P xs = partial_piece P (drop P xs)"
      using False by (subst partial_piece.simps) simp
    show ?thesis by (simp add: a b c ih)
  qed
qed

lemma partial_piece_append:
  "partial_piece P (xs @ ys) = partial_piece P (partial_piece P xs @ ys)"
proof (induction P xs rule: partial_piece.induct)
  case (1 P xs)
  show ?case
  proof (cases "P = 0 \<or> length xs < P")
    case True
    then have "partial_piece P xs = xs" by (subst partial_piece.simps) simp
    then show ?thesis by simp
  next
    case False
    with 1 have ih: "partial_piece P (drop P xs @ ys) =
        partial_piece P (partial_piece P (drop P xs) @ ys)"
      by simp
    have a: "partial_piece P (xs @ ys) = partial_piece P (drop P xs @ ys)"
      using False by (subst partial_piece.simps) simp
    have c: "partial_piece P xs = partial_piece P (drop P xs)"
      using False by (subst partial_piece.simps) simp
    show ?thesis by (simp add: a c ih)
  qed
qed

section \<open>Pieces: accounting and count\<close>

lemma concat_pieces: "concat (pieces P xs) = xs"
  using concat_full_pieces [of P xs] by (auto simp: pieces_def)

lemma length_pieces:
  assumes "0 < P"
  shows "length (pieces P xs) = length xs div P + (if length xs mod P = 0 then 0 else 1)"
proof -
  have "partial_piece P xs = [] \<longleftrightarrow> length xs mod P = 0"
    using length_partial_piece [OF assms, of xs] by (metis length_0_conv)
  then show ?thesis
    using assms by (simp add: pieces_def length_full_pieces)
qed

lemma length_pieces_ceiling:
  assumes "0 < P"
  shows "int (length (pieces (nat P) xs)) = \<lceil>real (length xs) / real_of_int P\<rceil>"
proof -
  define m where "m = nat P"
  have m: "P = int m" "0 < m"
    using assms by (simp_all add: m_def)
  define n where "n = length xs"
  have "int (length (pieces m xs)) = int n div int m + (if int n mod int m = 0 then 0 else 1)"
    using m(2) by (simp add: length_pieces n_def flip: of_nat_mod of_nat_div)
  also have "\<dots> = - (- int n div int m)"
    using m(2) by (simp add: zdiv_zminus1_eq_if)
  also have "\<dots> = \<lceil>real_of_int (int n) / real_of_int (int m)\<rceil>"
    by (simp only: ceiling_divide_eq_div)
  finally show ?thesis by (simp add: n_def m(1) [symmetric] m_def [symmetric])
qed

lemma piece_accounting_pieces:
  assumes "0 < P"
  shows "piece_accounting P (pieces P xs) xs"
proof -
  have full: "\<forall>p\<in>set (full_pieces P xs). length p = P"
    by (simp add: length_each_full_piece)
  have part: "length (partial_piece P xs) < P"
    using assms by (simp add: length_partial_piece)
  have "sum_list (map length (pieces P xs)) = length (concat (pieces P xs))"
    by (simp add: length_concat)
  moreover have "list_all (\<lambda>p. length p = P) (butlast (pieces P xs))"
    using full by (auto simp: pieces_def list_all_iff butlast_append dest: in_set_butlastD)
  moreover have "pieces P xs = [] \<or> (0 < length (last (pieces P xs)) \<and> length (last (pieces P xs)) \<le> P)"
  proof (cases "partial_piece P xs = []")
    case True
    then show ?thesis using full assms by (cases "full_pieces P xs = []") (auto simp: pieces_def)
  next
    case False
    then show ?thesis using part by (simp add: pieces_def)
  qed
  ultimately show ?thesis by (simp add: piece_accounting_def concat_pieces)
qed

lemma pieces_one: "0 < length xs \<Longrightarrow> length xs < P \<Longrightarrow> pieces P xs = [xs]"
  by (auto simp: pieces_def full_pieces_short partial_piece_short)

lemma pieces_two:
  assumes "P < length xs" and "length xs < 2 * P"
  shows "pieces P xs = [take P xs, drop P xs]"
proof -
  have d: "length (drop P xs) < P" "drop P xs \<noteq> []"
    using assms by simp_all
  have "full_pieces P xs = take P xs # full_pieces P (drop P xs)"
    using assms by (subst full_pieces.simps) simp
  moreover have "partial_piece P xs = partial_piece P (drop P xs)"
    using assms by (subst partial_piece.simps) simp
  ultimately show ?thesis
    using d by (simp add: pieces_def full_pieces_short partial_piece_short)
qed

section \<open>The loops of Write in closed form\<close>

lemma file_pieces_written_Nil:
  "filePieceBuffer mh = int (length (hash_written (filePieceSHA256 mh))) \<Longrightarrow>
   filePieceBuffer mh < pieceSize mh \<Longrightarrow> file_pieces_written mh [] = mh"
  by (simp add: file_pieces_written_def Let_def partial_piece_short full_pieces_short)

lemma file_piece_loop_returns:
  assumes "0 < pieceSize mh"
    and "filePieceBuffer mh = int (length (hash_written (filePieceSHA256 mh)))"
    and "filePieceBuffer mh < pieceSize mh"
    and "0 \<le> offset" and "offset \<le> int (length data)"
  shows "file_piece_loop data offset mh = Some (Inr (file_pieces_written mh (drop (nat offset) data)))"
  using assms
proof (induction "nat (int (length data) - offset)" arbitrary: offset mh rule: less_induct)
  case less
  let ?w = "hash_written (filePieceSHA256 mh)"
  let ?rest = "drop (nat offset) data"
  show ?case
  proof (cases "offset < int (length data)")
    case False
    with less.prems have "?rest = []" by simp
    moreover have "file_piece_loop data offset mh = Some (Inr mh)"
      using False by (subst file_piece_loop.simps) simp
    ultimately show ?thesis
      using less.prems by (simp add: file_pieces_written_Nil)
  next
    case True
    define n where "n = int (length data) - offset"
    define k where "k = (if n > pieceSize mh - filePieceBuffer mh then pieceSize mh - filePieceBuffer mh else n)"
    have k_pos: "0 < k" and k_le: "k \<le> n" "k \<le> pieceSize mh - filePieceBuffer mh"
      using True less.prems by (auto simp: k_def n_def)
    define chunk where "chunk = take (nat k) ?rest"
    have len_chunk: "length chunk = nat k"
      using k_le less.prems by (simp add: chunk_def n_def)
    have slice: "go_slice data offset (offset + k) = Inr chunk"
      using k_pos k_le less.prems by (simp add: go_slice_def chunk_def n_def)
    have "drop (nat (offset + k)) data = drop (nat k) ?rest"
      using k_pos less.prems by (simp add: nat_add_distrib add.commute)
    then have rest: "?rest = chunk @ drop (nat (offset + k)) data"
      by (simp only: chunk_def append_take_drop_id)
    show ?thesis
    proof (cases "filePieceBuffer mh + k = pieceSize mh")
      case full: True
      define mh' where "mh' = mh\<lparr> currentFilePieceList := currentFilePieceList mh @
             [hex_EncodeToString (hash_alg (filePieceSHA256 mh) (?w @ chunk))],
          filePieceSHA256 := (filePieceSHA256 mh)\<lparr> hash_written := [] \<rparr>,
          filePieceBuffer := 0 \<rparr>"
      have step: "file_piece_loop data offset mh = file_piece_loop data (offset + k) mh'"
        using True full slice
        by (subst file_piece_loop.simps)
           (simp add: Let_def k_def [symmetric] n_def [symmetric] mh'_def hash_Write_def hash_Sum_def hash_Reset_def)
      have "file_piece_loop data (offset + k) mh' =
              Some (Inr (file_pieces_written mh' (drop (nat (offset + k)) data)))"
        using k_pos k_le less.prems
        by (intro less.hyps) (simp_all add: mh'_def n_def)
      moreover have "length (?w @ chunk) = nat (pieceSize mh)"
        using full less.prems k_pos by (simp add: len_chunk)
      then have "file_pieces_written mh' (drop (nat (offset + k)) data) = file_pieces_written mh ?rest"
        using less.prems(1)
        by (subst rest, intro MultiHasher.equality)
           (simp_all add: file_pieces_written_def Let_def mh'_def
              full_pieces_step [of _ "?w @ chunk", simplified]
              partial_piece_step [of _ "?w @ chunk", simplified])
      ultimately show ?thesis using step by simp
    next
      case part: False
      then have kn: "k = n" using k_le less.prems by (simp add: k_def split: if_splits)
      define mh' where "mh' = mh\<lparr> filePieceSHA256 := (filePieceSHA256 mh)\<lparr> hash_written := ?w @ chunk \<rparr>,
          filePieceBuffer := filePieceBuffer mh + k \<rparr>"
      have step: "file_piece_loop data offset mh = file_piece_loop data (offset + k) mh'"
        using True part slice
        by (subst file_piece_loop.simps)
           (simp add: Let_def k_def [symmetric] n_def [symmetric] mh'_def hash_Write_def)
      have "file_piece_loop data (offset + k) mh' =
              Some (Inr (file_pieces_written mh' (drop (nat (offset + k)) data)))"
        using k_pos k_le less.prems part
        by (intro less.hyps) (simp_all add: mh'_def n_def len_chunk)
      moreover have "drop (nat (offset + k)) data = []"
        using kn by (simp add: n_def)
      moreover have "file_pieces_written mh' [] = mh'"
        using k_pos k_le less.prems part
        by (intro file_pieces_written_Nil) (simp_all add: mh'_def len_chunk)
      moreover have "?rest = chunk"
        using rest \<open>drop (nat (offset + k)) data = []\<close> by simp
      moreover have "length (?w @ chunk) < nat (pieceSize mh)"
        using part k_le less.prems k_pos by (simp add: len_chunk)
      then have "file_pieces_written mh chunk = mh'"
        using k_pos
        by (intro MultiHasher.equality)
           (simp_all add: file_pieces_written_def Let_def mh'_def partial_piece_short
              full_pieces_short less.prems(2) len_chunk)
      ultimately show ?thesis using step by simp
    qed
  qed
qed


lemma torrent_pieces_written_Nil:
  "hash_written (torrentPieceSHA1 mh) = torrentPieceBuffer mh \<Longrightarrow>
   int (length (torrentPieceBuffer mh)) < pieceSize mh \<Longrightarrow> torrent_pieces_written mh [] = mh"
  by (intro MultiHasher.equality)
     (simp_all add: torrent_pieces_written_def Let_def partial_piece_short full_pieces_short)

lemma torrent_piece_loop_returns:
  assumes "0 < pieceSize mh"
    and "hash_written (torrentPieceSHA1 mh) = torrentPieceBuffer mh"
    and "int (length (torrentPieceBuffer mh)) < pieceSize mh"
    and "0 \<le> offset" and "offset \<le> int (length data)"
  shows "torrent_piece_loop data offset mh =
           Some (Inr (torrent_pieces_written mh (drop (nat offset) data)))"
  using assms
proof (induction "nat (int (length data) - offset)" arbitrary: offset mh rule: less_induct)
  case less
  let ?b = "torrentPieceBuffer mh"
  let ?rest = "drop (nat offset) data"
  show ?case
  proof (cases "offset < int (length data)")
    case False
    with less.prems have "?rest = []" by simp
    moreover have "torrent_piece_loop data offset mh = Some (Inr mh)"
      using False by (subst torrent_piece_loop.simps) simp
    ultimately show ?thesis
      using less.prems by (simp add: torrent_pieces_written_Nil)
  next
    case True
    define n where "n = int (length data) - offset"
    define k where "k = (if n > pieceSize mh - int (length ?b) then pieceSize mh - int (length ?b) else n)"
    have k_pos: "0 < k" and k_le: "k \<le> n" "k \<le> pieceSize mh - int (length ?b)"
      using True less.prems by (auto simp: k_def n_def)
    define chunk where "chunk = take (nat k) ?rest"
    have len_chunk: "length chunk = nat k"
      using k_le less.prems by (simp add: chunk_def n_def)
    have slice: "go_slice data offset (offset + k) = Inr chunk"
      using k_pos k_le less.prems by (simp add: go_slice_def chunk_def n_def)
    have "drop (nat (offset + k)) data = drop (nat k) ?rest"
      using k_pos less.prems by (simp add: nat_add_distrib add.commute)
    then have rest: "?rest = chunk @ drop (nat (offset + k)) data"
      by (simp only: chunk_def append_take_drop_id)
    show ?thesis
    proof (cases "int (length ?b) + k = pieceSize mh")
      case full: True
      define mh' where "mh' = mh\<lparr> torrentPieces := torrentPieces mh @
             hash_alg (torrentPieceSHA1 mh) (?b @ chunk),
          torrentPieceBuffer := [],
          torrentPieceSHA1 := (torrentPieceSHA1 mh)\<lparr> hash_written := [] \<rparr> \<rparr>"
      have "torrent_piece_loop data offset mh = torrent_piece_loop data (offset + k) mh'"
        using True full slice less.prems(2) k_pos
        by (subst torrent_piece_loop.simps)
           (simp add: Let_def k_def [symmetric] n_def [symmetric] mh'_def hash_Write_def
              hash_Sum_def hash_Reset_def len_chunk)
      moreover have "torrent_piece_loop data (offset + k) mh' =
              Some (Inr (torrent_pieces_written mh' (drop (nat (offset + k)) data)))"
        using k_pos k_le less.prems
        by (intro less.hyps) (simp_all add: mh'_def n_def)
      moreover have "length (?b @ chunk) = nat (pieceSize mh)"
        using full less.prems k_pos by (simp add: len_chunk)
      then have "torrent_pieces_written mh' (drop (nat (offset + k)) data) =
                 torrent_pieces_written mh ?rest"
        using less.prems(1)
        by (subst rest, intro MultiHasher.equality)
           (simp_all add: torrent_pieces_written_def Let_def mh'_def
              full_pieces_step [of _ "?b @ chunk", simplified]
              partial_piece_step [of _ "?b @ chunk", simplified])
      ultimately show ?thesis by simp
    next
      case part: False
      then have kn: "k = n" using k_le less.prems by (simp add: k_def split: if_splits)
      define mh' where "mh' = mh\<lparr> torrentPieceBuffer := ?b @ chunk,
          torrentPieceSHA1 := (torrentPieceSHA1 mh)\<lparr> hash_written := ?b @ chunk \<rparr> \<rparr>"
      have "torrent_piece_loop data offset mh = torrent_piece_loop data (offset + k) mh'"
        using True part slice less.prems(2) k_pos
        by (subst torrent_piece_loop.simps)
           (simp add: Let_def k_def [symmetric] n_def [symmetric] mh'_def hash_Write_def len_chunk)
      moreover have "torrent_piece_loop data (offset + k) mh' =
              Some (Inr (torrent_pieces_written mh' (drop (nat (offset + k)) data)))"
        using k_pos k_le less.prems part
        by (intro less.hyps) (simp_all add: mh'_def n_def len_chunk)
      moreover have tail: "drop (nat (offset + k)) data = []"
        using kn by (simp add: n_def)
      moreover have "torrent_pieces_written mh' [] = mh'"
        using k_pos k_le less.prems part
        by (intro torrent_pieces_written_Nil) (simp_all add: mh'_def len_chunk)
      moreover have "?rest = chunk"
        using rest tail by simp
      moreover have "length (?b @ chunk) < nat (pieceSize mh)"
        using part k_le less.prems k_pos by (simp add: len_chunk)
      then have "torrent_pieces_written mh chunk = mh'"
        using k_pos
        by (intro MultiHasher.equality)
           (simp_all add: torrent_pieces_written_def Let_def mh'_def partial_piece_short
              full_pieces_short len_chunk)
      ultimately show ?thesis by simp
    qed
  qed
qed

lemma int_mod_nat_less: "0 < (P::int) \<Longrightarrow> int (n mod nat P) < P"
  using mod_less_divisor [of "nat P" n] by linarith

lemma int64_range: "- (2 ^ 63) \<le> int64 x \<and> int64 x < 2 ^ 63"
proof -
  have "0 \<le> (x + 2 ^ 63) mod 2 ^ 64" "(x + 2 ^ 63) mod 2 ^ 64 < (2 ^ 64 :: int)"
    by simp_all
  then show ?thesis by (simp add: int64_def)
qed

lemma int64_id: "- (2 ^ 63) \<le> x \<Longrightarrow> x < 2 ^ 63 \<Longrightarrow> int64 x = x"
  by (simp add: int64_def)

lemma int64_add_left: "int64 (int64 x + y) = int64 (x + y)"
proof -
  have "(int64 x + y + 2 ^ 63) mod 2 ^ 64 = ((x + 2 ^ 63) mod 2 ^ 64 + y) mod 2 ^ 64"
    by (simp add: int64_def algebra_simps)
  also have "\<dots> = (x + 2 ^ 63 + y) mod 2 ^ 64"
    by (simp add: mod_add_left_eq)
  finally show ?thesis by (simp add: int64_def algebra_simps)
qed

lemma accumulating_written: "accumulating mh \<Longrightarrow> accumulating (written mh data)"
  using int64_range [of "currentFileByteCount mh + int (length data)"]
  by (simp add: accumulating_def written_def Let_def length_partial_piece int_mod_nat_less)

lemma Write_returns: "accumulating mh \<Longrightarrow> Write mh data = Some (Inr (written mh data))"
proof -
  assume acc: "accumulating mh"
  define mh1 where "mh1 = mh\<lparr> fileSHA256 := hash_Write (fileSHA256 mh) data,
      currentFileByteCount := int64 (currentFileByteCount mh + int (length data)) \<rparr>"
  have "file_piece_loop data 0 mh1 = Some (Inr (file_pieces_written mh1 (drop (nat 0) data)))"
    using acc by (intro file_piece_loop_returns) (simp_all add: accumulating_def mh1_def)
  moreover have "torrent_piece_loop data 0 (file_pieces_written mh1 data) =
      Some (Inr (torrent_pieces_written (file_pieces_written mh1 data) (drop (nat 0) data)))"
    using acc
    by (intro torrent_piece_loop_returns)
       (simp_all add: accumulating_def mh1_def file_pieces_written_def Let_def)
  moreover have "torrent_pieces_written (file_pieces_written mh1 data) data = written mh data"
    by (intro MultiHasher.equality)
       (simp_all add: torrent_pieces_written_def file_pieces_written_def written_def mh1_def Let_def)
  ultimately show ?thesis
    by (simp add: Write_def Let_def and_then_def mh1_def [symmetric])
qed

text \<open>A negative piece size makes the first slice expression of \<open>Write\<close> panic.\<close>

lemma Write_negative_pieceSize_panics:
  "Write (NewMultiHasher sha1 sha256 (- 1)) [0] = Some (Inl SliceBoundsOutOfRange)"
  by (simp add: Write_def NewMultiHasher_def Let_def and_then_def go_slice_def
        file_piece_loop.simps [of "[0]" 0])

section \<open>Sequences of calls\<close>

lemma and_then_Inr [simp]: "and_then (Some (Inr x)) f = f x"
  by (simp add: and_then_def)

lemma written_Nil: "accumulating mh \<Longrightarrow> written mh [] = mh"
proof -
  assume acc: "accumulating mh"
  then have f: "length (hash_written (filePieceSHA256 mh)) < nat (pieceSize mh)"
    and t: "length (torrentPieceBuffer mh) < nat (pieceSize mh)"
    unfolding accumulating_def by linarith+
  have c: "int64 (currentFileByteCount mh) = currentFileByteCount mh"
    using acc by (intro int64_id) (simp_all add: accumulating_def)
  have b: "int (length (hash_written (filePieceSHA256 mh))) = filePieceBuffer mh"
    and h: "hash_written (torrentPieceSHA1 mh) = torrentPieceBuffer mh"
    using acc by (simp_all add: accumulating_def)
  have h': "(torrentPieceSHA1 mh)\<lparr> hash_written := torrentPieceBuffer mh \<rparr> = torrentPieceSHA1 mh"
    by (simp add: h [symmetric])
  show ?thesis
    by (intro MultiHasher.equality)
       (simp_all add: written_def Let_def hash_Write_def c b h'
          partial_piece_short [OF f] full_pieces_short [OF f]
          partial_piece_short [OF t] full_pieces_short [OF t])
qed

lemma written_append:
  "written (written mh a) b = written mh (a @ b)"
  by (intro MultiHasher.equality)
     (simp_all add: written_def Let_def hash_Write_def int64_add_left add.assoc
        full_pieces_append [of _ "hash_written (filePieceSHA256 mh) @ a" b, simplified]
        partial_piece_append [of _ "hash_written (filePieceSHA256 mh) @ a" b, simplified]
        full_pieces_append [of _ "torrentPieceBuffer mh @ a" b, simplified]
        partial_piece_append [of _ "torrentPieceBuffer mh @ a" b, simplified])

lemma write_all_returns:
  "accumulating mh \<Longrightarrow> write_all mh cs = Some (Inr (written mh (concat cs)))"
proof (induction cs arbitrary: mh)
  case Nil
  then show ?case by (simp add: written_Nil)
next
  case (Cons c cs)
  then show ?case
    by (simp add: Write_returns accumulating_written written_append)
qed

lemma read_loop_returns:
  "accumulating mh \<Longrightarrow> read_loop mh cs = Some (Inr (written mh (concat cs)))"
proof (induction cs arbitrary: mh)
  case Nil
  then show ?case by (simp add: written_Nil)
next
  case (Cons c cs)
  then show ?case
    by (simp add: Write_returns accumulating_written written_append)
qed

lemma accumulating_NewMultiHasher: "0 < P \<Longrightarrow> accumulating (NewMultiHasher sha1 sha256 P)"
  by (simp add: accumulating_def NewMultiHasher_def hash_New_def)

lemma accumulating_StartFile: "accumulating mh \<Longrightarrow> accumulating (StartFile mh relPath)"
  by (simp add: accumulating_def StartFile_def hash_Reset_def)

lemma accumulating_EndFile: "accumulating mh \<Longrightarrow> accumulating (snd (EndFile mh))"
  by (simp add: accumulating_def EndFile_def Let_def)

lemma accumulating_Finalize: "accumulating mh \<Longrightarrow> accumulating (Finalize mh)"
  by (simp add: accumulating_def Finalize_def Let_def)

lemma do_call_returns:
  assumes "accumulating mh"
  shows "\<exists>mh'. do_call mh c = Some (Inr mh') \<and> accumulating mh' \<and> pieceSize mh' = pieceSize mh"
proof (cases c)
  case (CallStartFile relPath)
  then show ?thesis
    using accumulating_StartFile [OF assms, of relPath] by (simp add: StartFile_def)
next
  case (CallWrite data)
  then show ?thesis
    using accumulating_written [OF assms, of data] assms
    by (simp add: Write_returns) (simp add: written_def Let_def)
next
  case CallEndFile
  then show ?thesis
    using accumulating_EndFile [OF assms] by (simp add: EndFile_def Let_def)
next
  case CallFinalize
  then show ?thesis
    using accumulating_Finalize [OF assms] by (simp add: Finalize_def Let_def)
qed

lemma do_calls_returns:
  "accumulating mh \<Longrightarrow> \<exists>mh'. do_calls mh cs = Some (Inr mh') \<and> accumulating mh' \<and> pieceSize mh' = pieceSize mh"
proof (induction cs arbitrary: mh)
  case Nil
  then show ?case by simp
next
  case (Cons c cs)
  from do_call_returns [OF Cons.prems, of c] obtain mh1 where
    "do_call mh c = Some (Inr mh1)" "accumulating mh1" "pieceSize mh1 = pieceSize mh"
    by blast
  with Cons.IH [of mh1] show ?case by auto
qed

lemma do_calls_append:
  "do_calls mh (cs @ ds) = and_then (do_calls mh cs) (\<lambda>mh. do_calls mh ds)"
proof (induction cs arbitrary: mh)
  case Nil
  show ?case by simp
next
  case (Cons c cs)
  show ?case
    by (cases "do_call mh c") (auto simp: and_then_def Cons.IH split: sum.splits)
qed

lemma do_calls_Write: "do_calls mh (map CallWrite cs) = write_all mh cs"
  by (induction cs arbitrary: mh) (simp_all add: and_then_def)

lemma do_call_algs:
  assumes "accumulating mh" and "do_call mh c = Some (Inr mh')"
  shows "hash_alg (filePieceSHA256 mh') = hash_alg (filePieceSHA256 mh) \<and>
         hash_alg (torrentPieceSHA1 mh') = hash_alg (torrentPieceSHA1 mh)"
proof (cases c)
  case (CallStartFile relPath)
  with assms(2) show ?thesis by (auto simp: StartFile_def hash_Reset_def)
next
  case (CallWrite data)
  with assms show ?thesis by (auto simp: Write_returns written_def Let_def)
next
  case CallEndFile
  with assms(2) show ?thesis by (auto simp: EndFile_def Let_def)
next
  case CallFinalize
  with assms(2) show ?thesis by (auto simp: Finalize_def Let_def)
qed

lemma do_calls_algs:
  assumes "accumulating mh" and "do_calls mh cs = Some (Inr mh')"
  shows "hash_alg (filePieceSHA256 mh') = hash_alg (filePieceSHA256 mh) \<and>
         hash_alg (torrentPieceSHA1 mh') = hash_alg (torrentPieceSHA1 mh)"
  using assms
proof (induction cs arbitrary: mh)
  case Nil
  then show ?case by simp
next
  case (Cons c cs)
  from do_call_returns [OF Cons.prems(1), of c] obtain mh1 where
    1: "do_call mh c = Some (Inr mh1)" "accumulating mh1"
    by blast
  with Cons.prems(2) have "do_calls mh1 cs = Some (Inr mh')" by simp
  from Cons.IH [OF 1(2) this] do_call_algs [OF Cons.prems(1) 1(1)] show ?case by simp
qed

lemma int_mod_nat: "0 < (P::int) \<Longrightarrow> int (n mod nat P) = int n mod P"
  by (simp add: zmod_int)

lemma int_div_nat: "0 < (P::int) \<Longrightarrow> int (n div nat P) = int n div P"
  by (simp add: zdiv_int)

section \<open>A whole run in closed form\<close>

lemma hash_file_returns:
  "accumulating mh \<Longrightarrow>
   hash_file mh fi = Some (Inr (snd (EndFile (written (StartFile mh (fst fi)) (concat (snd fi))))))"
  by (simp add: hash_file_def read_loop_returns accumulating_StartFile)

lemma hash_file_state:
  fixes mh :: MultiHasher and fi :: "string \<times> byte list list"
  assumes acc: "accumulating mh"
    and algs: "hash_alg (fileSHA256 mh) = sha256" "hash_alg (filePieceSHA256 mh) = sha256"
  defines "mh' \<equiv> snd (EndFile (written (StartFile mh (fst fi)) (concat (snd fi))))"
  shows "accumulating mh'"
    and "pieceSize mh' = pieceSize mh"
    and "hash_alg (fileSHA256 mh') = sha256"
    and "hash_alg (filePieceSHA256 mh') = sha256"
    and "hash_alg (torrentPieceSHA1 mh') = hash_alg (torrentPieceSHA1 mh)"
    and "torrentPieceBuffer mh' =
           partial_piece (nat (pieceSize mh)) (torrentPieceBuffer mh @ concat (snd fi))"
    and "torrentPieces mh' = torrentPieces mh @
           concat (map (hash_alg (torrentPieceSHA1 mh))
             (full_pieces (nat (pieceSize mh)) (torrentPieceBuffer mh @ concat (snd fi))))"
    and "results mh' = results mh @ [expected_result sha256 (nat (pieceSize mh)) fi]"
proof -
  show "accumulating mh'"
    unfolding mh'_def
    by (intro accumulating_EndFile accumulating_written accumulating_StartFile acc)
  show "pieceSize mh' = pieceSize mh"
    by (simp add: mh'_def EndFile_def written_def StartFile_def Let_def)
  show "hash_alg (fileSHA256 mh') = sha256"
    using algs
    by (simp add: mh'_def EndFile_def written_def StartFile_def Let_def hash_Reset_def hash_Write_def)
  show "hash_alg (filePieceSHA256 mh') = sha256"
    using algs
    by (simp add: mh'_def EndFile_def written_def StartFile_def Let_def hash_Reset_def)
  show "hash_alg (torrentPieceSHA1 mh') = hash_alg (torrentPieceSHA1 mh)"
    by (simp add: mh'_def EndFile_def written_def StartFile_def Let_def)
  show "torrentPieceBuffer mh' =
           partial_piece (nat (pieceSize mh)) (torrentPieceBuffer mh @ concat (snd fi))"
    by (simp add: mh'_def EndFile_def written_def StartFile_def Let_def)
  show "torrentPieces mh' = torrentPieces mh @
           concat (map (hash_alg (torrentPieceSHA1 mh))
             (full_pieces (nat (pieceSize mh)) (torrentPieceBuffer mh @ concat (snd fi))))"
    by (simp add: mh'_def EndFile_def written_def StartFile_def Let_def)
  show "results mh' = results mh @ [expected_result sha256 (nat (pieceSize mh)) fi]"
    using algs
    by (simp add: mh'_def EndFile_def written_def StartFile_def Let_def hash_Reset_def
          hash_Write_def hash_Sum_def expected_result_def pieces_def)
qed

lemma hash_files_returns:
  assumes "accumulating mh"
    and "hash_alg (fileSHA256 mh) = sha256" "hash_alg (filePieceSHA256 mh) = sha256"
  shows "\<exists>mh'. hash_files mh files = Some (Inr mh') \<and> accumulating mh' \<and>
           pieceSize mh' = pieceSize mh \<and>
           hash_alg (torrentPieceSHA1 mh') = hash_alg (torrentPieceSHA1 mh) \<and>
           torrentPieceBuffer mh' =
             partial_piece (nat (pieceSize mh)) (torrentPieceBuffer mh @ all_bytes files) \<and>
           torrentPieces mh' = torrentPieces mh @
             concat (map (hash_alg (torrentPieceSHA1 mh))
               (full_pieces (nat (pieceSize mh)) (torrentPieceBuffer mh @ all_bytes files))) \<and>
           results mh' = results mh @ map (expected_result sha256 (nat (pieceSize mh))) files"
  using assms
proof (induction files arbitrary: mh)
  case Nil
  then have "length (torrentPieceBuffer mh) < nat (pieceSize mh)"
    unfolding accumulating_def by linarith
  with Nil show ?case
    by (simp add: all_bytes_def partial_piece_short full_pieces_short)
next
  case (Cons fi files)
  define mh1 where "mh1 = snd (EndFile (written (StartFile mh (fst fi)) (concat (snd fi))))"
  note st = hash_file_state [OF Cons.prems, of fi, folded mh1_def]
  from Cons.IH [OF st(1) st(3) st(4)] obtain mh' where
    r: "hash_files mh1 files = Some (Inr mh')" "accumulating mh'" "pieceSize mh' = pieceSize mh1"
      "hash_alg (torrentPieceSHA1 mh') = hash_alg (torrentPieceSHA1 mh1)"
      "torrentPieceBuffer mh' =
         partial_piece (nat (pieceSize mh1)) (torrentPieceBuffer mh1 @ all_bytes files)"
      "torrentPieces mh' = torrentPieces mh1 @
         concat (map (hash_alg (torrentPieceSHA1 mh1))
           (full_pieces (nat (pieceSize mh1)) (torrentPieceBuffer mh1 @ all_bytes files)))"
      "results mh' = results mh1 @ map (expected_result sha256 (nat (pieceSize mh1))) files"
    by blast
  have ab: "all_bytes (fi # files) = concat (snd fi) @ all_bytes files"
    by (simp add: all_bytes_def)
  have "hash_files mh (fi # files) = Some (Inr mh')"
    using r(1) by (simp add: hash_file_returns [OF Cons.prems(1)] mh1_def)
  moreover have "torrentPieceBuffer mh' =
      partial_piece (nat (pieceSize mh)) (torrentPieceBuffer mh @ all_bytes (fi # files))"
    by (simp add: r(5) st ab
          partial_piece_append [of _ "torrentPieceBuffer mh @ concat (snd fi)", simplified])
  moreover have "torrentPieces mh' = torrentPieces mh @
      concat (map (hash_alg (torrentPieceSHA1 mh))
        (full_pieces (nat (pieceSize mh)) (torrentPieceBuffer mh @ all_bytes (fi # files))))"
    by (simp add: r(6) st ab
          full_pieces_append [of _ "torrentPieceBuffer mh @ concat (snd fi)", simplified])
  moreover have "results mh' = results mh @ map (expected_result sha256 (nat (pieceSize mh))) (fi # files)"
    by (simp add: r(7) st)
  ultimately show ?case
    using r(2,3,4) st(2,5) by simp
qed

lemma hash_run_returns:
  assumes "0 < P"
  shows "\<exists>mh. hash_run sha1 sha256 P files = Some (Inr mh) \<and>
           GetTorrentPieces mh = concat (map sha1 (pieces (nat P) (all_bytes files))) \<and>
           GetResults mh = map (expected_result sha256 (nat P)) files"
proof -
  let ?new = "NewMultiHasher sha1 sha256 P"
  have "accumulating ?new" by (rule accumulating_NewMultiHasher [OF assms])
  moreover have "hash_alg (fileSHA256 ?new) = sha256" "hash_alg (filePieceSHA256 ?new) = sha256"
    by (simp_all add: NewMultiHasher_def hash_New_def)
  ultimately obtain mh' where
    r: "hash_files ?new files = Some (Inr mh')"
      "hash_alg (torrentPieceSHA1 mh') = hash_alg (torrentPieceSHA1 ?new)"
      "torrentPieceBuffer mh' =
         partial_piece (nat (pieceSize ?new)) (torrentPieceBuffer ?new @ all_bytes files)"
      "torrentPieces mh' = torrentPieces ?new @
         concat (map (hash_alg (torrentPieceSHA1 ?new))
           (full_pieces (nat (pieceSize ?new)) (torrentPieceBuffer ?new @ all_bytes files)))"
      "results mh' = results ?new @ map (expected_result sha256 (nat (pieceSize ?new))) files"
      "accumulating mh'"
    using hash_files_returns [of ?new sha256 files] by blast
  have new: "pieceSize ?new = P" "torrentPieceBuffer ?new = []" "torrentPieces ?new = []"
    "results ?new = []" "hash_alg (torrentPieceSHA1 ?new) = sha1"
    by (simp_all add: NewMultiHasher_def hash_New_def)
  have sha: "hash_written (torrentPieceSHA1 mh') = torrentPieceBuffer mh'"
    using r(6) by (simp add: accumulating_def)
  have "hash_run sha1 sha256 P files = Some (Inr (Finalize mh'))"
    by (simp add: hash_run_def r(1))
  moreover have "GetTorrentPieces (Finalize mh') = concat (map sha1 (pieces (nat P) (all_bytes files)))"
    using r(2,3,4) sha
    by (simp add: GetTorrentPieces_def Finalize_def Let_def new pieces_def hash_Sum_def)
  moreover have "GetResults (Finalize mh') = map (expected_result sha256 (nat P)) files"
    using r(5) by (simp add: GetResults_def Finalize_def Let_def new)
  ultimately show ?thesis by blast
qed

section \<open>Strings and powers of two: basic facts\<close>

lemma strings_HasSuffix_iff: "strings_HasSuffix s suffix \<longleftrightarrow> (\<exists>p. s = p @ suffix)"
proof
  assume "strings_HasSuffix s suffix"
  then have "s = take (length s - length suffix) s @ suffix"
    by (metis strings_HasSuffix_def append_take_drop_id)
  then show "\<exists>p. s = p @ suffix" ..
next
  assume "\<exists>p. s = p @ suffix"
  then show "strings_HasSuffix s suffix"
    by (auto simp: strings_HasSuffix_def)
qed

lemma strings_TrimRight_slashes:
  "\<exists>k. m = strings_TrimRight m ''/'' @ replicate k CHR ''/''"
proof -
  let ?P = "\<lambda>c. c \<in> set ''/''"
  define ys where "ys = rev (takeWhile ?P (rev m))"
  have "rev (rev m) = rev (takeWhile ?P (rev m) @ dropWhile ?P (rev m))"
    by (simp only: takeWhile_dropWhile_id)
  then have m: "m = rev (dropWhile ?P (rev m)) @ ys"
    by (simp only: rev_rev_ident rev_append ys_def)
  have "\<forall>c\<in>set ys. c = CHR ''/''"
    unfolding ys_def by (auto dest: set_takeWhileD)
  then have "replicate (length ys) CHR ''/'' = ys"
    by (rule replicate_length_same)
  with m have "m = strings_TrimRight m ''/'' @ replicate (length ys) CHR ''/''"
    by (simp only: strings_TrimRight_def)
  then show ?thesis ..
qed

lemma strings_TrimRight_last:
  "strings_TrimRight m ''/'' = [] \<or> last (strings_TrimRight m ''/'') \<noteq> CHR ''/''"
proof (cases "dropWhile (\<lambda>c. c \<in> set ''/'') (rev m)")
  case Nil
  then show ?thesis by (simp add: strings_TrimRight_def)
next
  case (Cons c cs)
  then have "\<not> c \<in> set ''/''"
    by (metis hd_dropWhile list.distinct(1) list.sel(1))
  with Cons show ?thesis by (simp add: strings_TrimRight_def)
qed

lemma joined_not_verbatim:
  assumes "\<exists>c\<in>set name. c \<noteq> CHR ''/''"
  shows "strings_TrimRight m ''/'' @ ''/'' @ name \<noteq> m"
proof
  assume eq: "strings_TrimRight m ''/'' @ ''/'' @ name = m"
  obtain k where k: "m = strings_TrimRight m ''/'' @ replicate k CHR ''/''"
    using strings_TrimRight_slashes by blast
  from eq k have "strings_TrimRight m ''/'' @ ''/'' @ name =
      strings_TrimRight m ''/'' @ replicate k CHR ''/''"
    by simp
  then have "''/'' @ name = replicate k CHR ''/''" by simp
  then have "set name \<subseteq> set (replicate k CHR ''/'')"
    by (metis set_append sup_ge2)
  with assms show False by auto
qed

lemma two_powr_nonneg: "0 \<le> e \<Longrightarrow> 2 powr real_of_int e = real_of_int (2 ^ nat e)"
proof -
  assume "0 \<le> e"
  then obtain n where e: "e = int n" by (rule nonneg_int_cases)
  show ?thesis unfolding e by (simp add: powr_realpow)
qed

lemma two_powr_neg: "e < 0 \<Longrightarrow> 0 < 2 powr real_of_int e \<and> 2 powr real_of_int e < 1"
proof -
  assume "e < 0"
  then have "2 powr real_of_int e < 2 powr 0"
    by (intro powr_less_mono) simp_all
  then show ?thesis by simp
qed

lemma real_trunc_of_int: "real_trunc (real_of_int b) = b"
  by (simp add: real_trunc_def)

lemma two_powr_cases:
  "(\<exists>p. 2 powr real_of_int e = real_of_int p) \<or>
   (0 < 2 powr real_of_int e \<and> 2 powr real_of_int e < 1)"
proof (cases "0 \<le> e")
  case True
  then show ?thesis using two_powr_nonneg by blast
next
  case False
  then show ?thesis using two_powr_neg [of e] by simp
qed

lemma base_is_int:
  "\<exists>b. max (real_of_int P_MIN) (2 powr real_of_int e) = real_of_int b"
proof -
  consider p where "2 powr real_of_int e = real_of_int p"
    | "0 < 2 powr real_of_int e" "2 powr real_of_int e < 1"
    using two_powr_cases [of e] by blast
  then show ?thesis
  proof cases
    case 1
    have "max (real_of_int P_MIN) (real_of_int p) = real_of_int (max P_MIN p)"
      by (simp add: max_def)
    then show ?thesis unfolding 1 ..
  next
    case 2
    then have "max (real_of_int P_MIN) (2 powr real_of_int e) = real_of_int P_MIN"
      by (simp add: P_MIN_def)
    then show ?thesis ..
  qed
qed

lemma stepped_clamped:
  "real_of_int
     (let stepped = real_trunc (2 powr real_of_int f);
          stepped = (if stepped < P_CAP then P_CAP else stepped);
          stepped = (if stepped > P_MAX then P_MAX else stepped)
      in stepped) =
   min (max (2 powr real_of_int f) (real_of_int P_CAP)) (real_of_int P_MAX)"
proof -
  consider p where "2 powr real_of_int f = real_of_int p"
    | "0 < 2 powr real_of_int f" "2 powr real_of_int f < 1"
    using two_powr_cases [of f] by blast
  then show ?thesis
  proof cases
    case 1
    show ?thesis
      unfolding 1 real_trunc_of_int Let_def
      by (simp add: P_CAP_def P_MAX_def min_def max_def)
  next
    case 2
    then have "real_trunc (2 powr real_of_int f) = 0"
      by (simp add: real_trunc_def floor_eq_iff)
    then show ?thesis
      using 2 by (simp add: Let_def P_CAP_def P_MAX_def)
  qed
qed

section \<open>Piece size: results\<close>

text \<open>
  C5. For every total size (non-negative or not) and whatever the floating-point
  operations return, \<open>calculatePieceSize\<close> yields a value between \<open>P_MIN\<close> (256 KiB)
  and \<open>P_MAX\<close> (64 MiB): the bounds come from the integer clamps alone. As a HOL
  function it is total and deterministic.
\<close>

theorem calculatePieceSize_range:
  "P_MIN \<le> calculatePieceSize fp total' \<and> calculatePieceSize fp total' \<le> P_MAX
   \<and> P_MIN = 262144 \<and> P_MAX = 67108864"
  by (simp add: calculatePieceSize_def Let_def P_MIN_def P_CAP_def P_MAX_def)

text \<open>
  C1. In exact arithmetic \<open>calculatePieceSize\<close> computes the algorithm of the
  specification for every total: \<open>P_MIN\<close> for a total of 0 or less; otherwise, with
  \<open>exp = floor(log2(total) - 10)\<close>, the value \<open>min(max(P_MIN, 2^exp), P_CAP)\<close>,
  replaced by \<open>2^floor(log2(total / N_THRESHOLD))\<close> clamped to at least \<open>P_CAP\<close> and
  at most \<open>P_MAX\<close> when \<open>total / current\<close> exceeds \<open>N_THRESHOLD\<close>, and finally
  clamped to at least \<open>P_MIN\<close>. The conversions to \<open>int64\<close> change nothing: the
  values converted are integers, or lie below 1 where the clamp to \<open>P_CAP\<close> follows.
\<close>

theorem calculatePieceSize_follows_algorithm:
  "calculatePieceSize exact_ops total' = select_piece_length total'"
proof (cases "total' \<le> 0")
  case True
  then show ?thesis by (simp add: calculatePieceSize_def select_piece_length_def)
next
  case False
  define e where "e = \<lfloor>log 2 (real_of_int total') - 10\<rfloor>"
  define f where "f = \<lfloor>log 2 (real_of_int total' / real_of_int N_THRESHOLD)\<rfloor>"
  obtain b where b: "max (real_of_int P_MIN) (2 powr real_of_int e) = real_of_int b"
    using base_is_int by blast
  define c where "c = (if b > P_CAP then P_CAP else b)"
  have c: "min (real_of_int b) (real_of_int P_CAP) = real_of_int c"
    by (simp add: c_def)
  define s where "s =
    (if (if real_trunc (2 powr real_of_int f) < P_CAP then P_CAP
         else real_trunc (2 powr real_of_int f)) > P_MAX then P_MAX
     else (if real_trunc (2 powr real_of_int f) < P_CAP then P_CAP
           else real_trunc (2 powr real_of_int f)))"
  have s: "min (max (2 powr real_of_int f) (real_of_int P_CAP)) (real_of_int P_MAX) = real_of_int s"
    unfolding s_def by (rule stepped_clamped [unfolded Let_def, symmetric])
  define r where "r = (if real_of_int total' / real_of_int c > real_of_int N_THRESHOLD then s else c)"
  have 1: "int64_of exact_ops (math_Max exact_ops (float64_of exact_ops P_MIN)
             (math_Pow exact_ops (float64_of exact_ops 2)
               (math_Floor exact_ops (f_sub exact_ops
                  (math_Log2 exact_ops (float64_of exact_ops total')) (float64_of exact_ops 10))))) = b"
  proof -
    have "int64_of exact_ops (math_Max exact_ops (float64_of exact_ops P_MIN)
             (math_Pow exact_ops (float64_of exact_ops 2)
               (math_Floor exact_ops (f_sub exact_ops
                  (math_Log2 exact_ops (float64_of exact_ops total')) (float64_of exact_ops 10))))) =
          real_trunc (max (real_of_int P_MIN) (2 powr real_of_int e))"
      by (simp add: exact_ops_def e_def)
    then show ?thesis by (simp only: b real_trunc_of_int)
  qed
  have 2: "int64_of exact_ops (math_Pow exact_ops (float64_of exact_ops 2)
             (math_Floor exact_ops (math_Log2 exact_ops
                (f_div exact_ops (float64_of exact_ops total') (float64_of exact_ops N_THRESHOLD))))) =
           real_trunc (2 powr real_of_int f)"
    by (simp add: exact_ops_def f_def)
  have 3: "f_gt exact_ops (f_div exact_ops (float64_of exact_ops total') (float64_of exact_ops x))
             (float64_of exact_ops N_THRESHOLD) =
           (real_of_int total' / real_of_int x > real_of_int N_THRESHOLD)" for x
    by (simp add: exact_ops_def)
  have "calculatePieceSize exact_ops total' =
          (if total' \<le> 0 then P_MIN else if r < P_MIN then P_MIN else r)"
    unfolding calculatePieceSize_def Let_def 1 2 3
    unfolding c_def [symmetric] s_def [symmetric] r_def [symmetric] ..
  then have code: "calculatePieceSize exact_ops total' = (if r < P_MIN then P_MIN else r)"
    using False by simp
  have "select_piece_length total' =
          (if total' \<le> 0 then P_MIN else \<lfloor>max (real_of_int r) (real_of_int P_MIN)\<rfloor>)"
    unfolding select_piece_length_def Let_def e_def [symmetric] b c f_def [symmetric] s
    by (simp only: r_def if_distrib [of real_of_int])
  then have spec: "select_piece_length total' = \<lfloor>max (real_of_int r) (real_of_int P_MIN)\<rfloor>"
    using False by simp
  have "\<lfloor>max (real_of_int r) (real_of_int P_MIN)\<rfloor> = (if r < P_MIN then P_MIN else r)"
    by (simp add: max_def)
  with code spec show ?thesis by simp
qed

section \<open>The streaming hasher: results\<close>

text \<open>
  C6. \<open>StartFile\<close> records the new path and resets the per-file state: the whole-file
  digest, the per-file piece digest, the per-file partial-piece byte count, the per-file
  piece list and the per-file byte count. It leaves the cross-file piece digest, the
  cross-file partial-piece buffer, the emitted cross-file piece stream, the collected
  results and the piece size as they were.
\<close>

theorem StartFile_frame:
  "currentFileRelPath (StartFile mh relPath) = relPath \<and>
   fileSHA256 (StartFile mh relPath) = hash_Reset (fileSHA256 mh) \<and>
   hash_written (fileSHA256 (StartFile mh relPath)) = [] \<and>
   filePieceSHA256 (StartFile mh relPath) = hash_Reset (filePieceSHA256 mh) \<and>
   hash_written (filePieceSHA256 (StartFile mh relPath)) = [] \<and>
   filePieceBuffer (StartFile mh relPath) = 0 \<and>
   currentFilePieceList (StartFile mh relPath) = [] \<and>
   currentFileByteCount (StartFile mh relPath) = 0 \<and>
   torrentPieceSHA1 (StartFile mh relPath) = torrentPieceSHA1 mh \<and>
   torrentPieceBuffer (StartFile mh relPath) = torrentPieceBuffer mh \<and>
   torrentPieces (StartFile mh relPath) = torrentPieces mh \<and>
   results (StartFile mh relPath) = results mh \<and>
   pieceSize (StartFile mh relPath) = pieceSize mh"
  by (simp add: StartFile_def hash_Reset_def)

text \<open>
  C9. With a positive piece size, every sequence of calls on a new hasher returns, and
  after it the per-file partial byte count \<open>filePieceBuffer\<close> and the length of the
  cross-file buffer \<open>torrentPieceBuffer\<close> are both at least 0 and strictly below
  \<open>pieceSize\<close>. A further \<open>Write\<close> returns too, and within that call every piece that
  reaches \<open>pieceSize\<close> bytes is emitted and its counter reset: the per-file list grows by
  the digests of the complete pieces of the buffered bytes followed by the chunk, one for
  each \<open>pieceSize\<close> bytes, the cross-file stream by the digests of its complete pieces,
  and both counters are left at the remainder, again below \<open>pieceSize\<close>.
\<close>

theorem partial_piece_counters_below_pieceSize:
  assumes "0 < P"
  shows "\<exists>mh mh'. do_calls (NewMultiHasher sha1 sha256 P) cs = Some (Inr mh) \<and>
           pieceSize mh = P \<and>
           0 \<le> filePieceBuffer mh \<and> filePieceBuffer mh < pieceSize mh \<and>
           0 \<le> int (length (torrentPieceBuffer mh)) \<and>
           int (length (torrentPieceBuffer mh)) < pieceSize mh \<and>
           filePieceBuffer mh = int (length (hash_written (filePieceSHA256 mh))) \<and>
           Write mh data = Some (Inr mh') \<and>
           pieceSize mh' = P \<and>
           currentFilePieceList mh' = currentFilePieceList mh @
             map (\<lambda>p. hex_EncodeToString (sha256 p))
               (full_pieces (nat P) (hash_written (filePieceSHA256 mh) @ data)) \<and>
           int (length (currentFilePieceList mh')) =
             int (length (currentFilePieceList mh)) + (filePieceBuffer mh + int (length data)) div P \<and>
           filePieceBuffer mh' = (filePieceBuffer mh + int (length data)) mod P \<and>
           hash_written (filePieceSHA256 mh') =
             partial_piece (nat P) (hash_written (filePieceSHA256 mh) @ data) \<and>
           torrentPieces mh' = torrentPieces mh @
             concat (map sha1 (full_pieces (nat P) (torrentPieceBuffer mh @ data))) \<and>
           int (length (full_pieces (nat P) (torrentPieceBuffer mh @ data))) =
             (int (length (torrentPieceBuffer mh)) + int (length data)) div P \<and>
           torrentPieceBuffer mh' = partial_piece (nat P) (torrentPieceBuffer mh @ data) \<and>
           int (length (torrentPieceBuffer mh')) =
             (int (length (torrentPieceBuffer mh)) + int (length data)) mod P \<and>
           0 \<le> filePieceBuffer mh' \<and> filePieceBuffer mh' < pieceSize mh' \<and>
           int (length (torrentPieceBuffer mh')) < pieceSize mh'"
proof -
  let ?new = "NewMultiHasher sha1 sha256 P"
  have new: "accumulating ?new" by (rule accumulating_NewMultiHasher [OF assms])
  from do_calls_returns [OF new, of cs]
  obtain mh where mh: "do_calls ?new cs = Some (Inr mh)" "accumulating mh"
    "pieceSize mh = pieceSize ?new"
    by blast
  have P: "pieceSize mh = P" using mh(3) by (simp add: NewMultiHasher_def)
  have nP: "0 < nat P" using assms by simp
  from do_calls_algs [OF new mh(1)]
  have algs: "hash_alg (filePieceSHA256 mh) = sha256" "hash_alg (torrentPieceSHA1 mh) = sha1"
    by (simp_all add: NewMultiHasher_def hash_New_def)
  define mh' where "mh' = written mh data"
  have W: "Write mh data = Some (Inr mh')"
    unfolding mh'_def by (rule Write_returns [OF mh(2)])
  have acc': "accumulating mh'"
    unfolding mh'_def by (rule accumulating_written [OF mh(2)])
  have buf: "filePieceBuffer mh = int (length (hash_written (filePieceSHA256 mh)))"
    using mh(2) by (simp add: accumulating_def)
  have P': "pieceSize mh' = P"
    by (simp add: mh'_def written_def Let_def P)
  have list: "currentFilePieceList mh' = currentFilePieceList mh @
             map (\<lambda>p. hex_EncodeToString (sha256 p))
               (full_pieces (nat P) (hash_written (filePieceSHA256 mh) @ data))"
    by (simp add: mh'_def written_def Let_def P algs)
  have count: "int (length (currentFilePieceList mh')) =
             int (length (currentFilePieceList mh)) + (filePieceBuffer mh + int (length data)) div P"
    unfolding list buf
    by (simp add: length_full_pieces [OF nP] int_div_nat [OF assms])
  have fw: "hash_written (filePieceSHA256 mh') =
             partial_piece (nat P) (hash_written (filePieceSHA256 mh) @ data)"
    by (simp add: mh'_def written_def Let_def P)
  have fb: "filePieceBuffer mh' = (filePieceBuffer mh + int (length data)) mod P"
    unfolding buf
    by (simp add: mh'_def written_def Let_def P length_partial_piece [OF nP] int_mod_nat [OF assms])
  have tp: "torrentPieces mh' = torrentPieces mh @
             concat (map sha1 (full_pieces (nat P) (torrentPieceBuffer mh @ data)))"
    by (simp add: mh'_def written_def Let_def P algs)
  have tc: "int (length (full_pieces (nat P) (torrentPieceBuffer mh @ data))) =
             (int (length (torrentPieceBuffer mh)) + int (length data)) div P"
    by (simp add: length_full_pieces [OF nP] int_div_nat [OF assms])
  have tb: "torrentPieceBuffer mh' = partial_piece (nat P) (torrentPieceBuffer mh @ data)"
    by (simp add: mh'_def written_def Let_def P)
  have tl: "int (length (torrentPieceBuffer mh')) =
             (int (length (torrentPieceBuffer mh)) + int (length data)) mod P"
    unfolding tb by (simp add: length_partial_piece [OF nP] int_mod_nat [OF assms])
  have b: "0 \<le> filePieceBuffer mh" "filePieceBuffer mh < pieceSize mh"
    "0 \<le> int (length (torrentPieceBuffer mh))" "int (length (torrentPieceBuffer mh)) < pieceSize mh"
    using mh(2) by (simp_all add: accumulating_def)
  have b': "0 \<le> filePieceBuffer mh'" "filePieceBuffer mh' < pieceSize mh'"
    "int (length (torrentPieceBuffer mh')) < pieceSize mh'"
    using acc' by (simp_all add: accumulating_def)
  show ?thesis
    by (intro exI [of _ mh] exI [of _ mh'] conjI)
       (rule mh(1) P b buf W P' list count fb fw tp tc tb tl b')+
qed

theorem partial_piece_counters_below_pieceSize_witness:
  "(0::int) < 4 \<and>
   (\<exists>mh'. Write (NewMultiHasher (\<lambda>bs. take 2 bs) (\<lambda>bs. rev bs) 4) [1, 2, 3, 4, 5, 6] =
            Some (Inr mh') \<and>
      currentFilePieceList mh' = [hex_EncodeToString [4, 3, 2, 1]] \<and>
      filePieceBuffer mh' = 2 \<and>
      hash_written (filePieceSHA256 mh') = [5, 6] \<and>
      torrentPieces mh' = [1, 2] \<and>
      torrentPieceBuffer mh' = [5, 6] \<and>
      filePieceBuffer mh' < pieceSize mh' \<and>
      int (length (torrentPieceBuffer mh')) < pieceSize mh') \<and>
   (\<exists>mh. do_calls (NewMultiHasher (\<lambda>bs. take 2 bs) (\<lambda>bs. rev bs) 4)
           [CallStartFile ''a'', CallWrite [1, 2, 3, 4, 5, 6], CallWrite [], CallEndFile,
            CallStartFile ''b'', CallWrite [7], CallEndFile, CallFinalize] = Some (Inr mh) \<and>
         pieceSize mh = 4 \<and>
         0 \<le> filePieceBuffer mh \<and> filePieceBuffer mh < pieceSize mh \<and>
         int (length (torrentPieceBuffer mh)) < pieceSize mh)"
proof -
  have h: "(0::int) < 4" by simp
  let ?new = "NewMultiHasher (\<lambda>bs. take 2 bs) (\<lambda>bs. rev bs) 4"
  let ?d = "[1, 2, 3, 4, 5, 6 :: byte]"
  from partial_piece_counters_below_pieceSize [OF h, of "\<lambda>bs. take 2 bs" "\<lambda>bs. rev bs" "[]" ?d]
  obtain mh mh' where a:
    "do_calls ?new [] = Some (Inr mh)"
    "Write mh ?d = Some (Inr mh')"
    "currentFilePieceList mh' = currentFilePieceList mh @
       map (\<lambda>p. hex_EncodeToString (rev p))
         (full_pieces (nat 4) (hash_written (filePieceSHA256 mh) @ ?d))"
    "filePieceBuffer mh' = (filePieceBuffer mh + int (length ?d)) mod 4"
    "hash_written (filePieceSHA256 mh') =
       partial_piece (nat 4) (hash_written (filePieceSHA256 mh) @ ?d)"
    "torrentPieces mh' = torrentPieces mh @
       concat (map (\<lambda>bs. take 2 bs) (full_pieces (nat 4) (torrentPieceBuffer mh @ ?d)))"
    "torrentPieceBuffer mh' = partial_piece (nat 4) (torrentPieceBuffer mh @ ?d)"
    "filePieceBuffer mh' < pieceSize mh'"
    "int (length (torrentPieceBuffer mh')) < pieceSize mh'"
    by blast
  from a(1) have mh: "mh = ?new" by simp
  have new: "currentFilePieceList ?new = []" "hash_written (filePieceSHA256 ?new) = []"
    "filePieceBuffer ?new = 0" "torrentPieces ?new = []" "torrentPieceBuffer ?new = []"
    by (simp_all add: NewMultiHasher_def hash_New_def)
  have 1: "currentFilePieceList mh' = [hex_EncodeToString [4, 3, 2, 1]]"
    unfolding a(3) mh new by (simp add: full_pieces.simps)
  have 2: "filePieceBuffer mh' = 2"
    unfolding a(4) mh new by simp
  have 3: "hash_written (filePieceSHA256 mh') = [5, 6]"
    unfolding a(5) mh new by (simp add: partial_piece.simps)
  have 4: "torrentPieces mh' = [1, 2]"
    unfolding a(6) mh new by (simp add: full_pieces.simps)
  have 5: "torrentPieceBuffer mh' = [5, 6]"
    unfolding a(7) mh new by (simp add: partial_piece.simps)
  have first: "\<exists>mh'. Write ?new ?d = Some (Inr mh') \<and>
      currentFilePieceList mh' = [hex_EncodeToString [4, 3, 2, 1]] \<and>
      filePieceBuffer mh' = 2 \<and>
      hash_written (filePieceSHA256 mh') = [5, 6] \<and>
      torrentPieces mh' = [1, 2] \<and>
      torrentPieceBuffer mh' = [5, 6] \<and>
      filePieceBuffer mh' < pieceSize mh' \<and>
      int (length (torrentPieceBuffer mh')) < pieceSize mh'"
    using a(2) [unfolded mh] 1 2 3 4 5 a(8,9) by (intro exI [of _ mh'] conjI)
  from partial_piece_counters_below_pieceSize [OF h, of "\<lambda>bs. take 2 bs" "\<lambda>bs. rev bs"
      "[CallStartFile ''a'', CallWrite [1, 2, 3, 4, 5, 6], CallWrite [], CallEndFile,
        CallStartFile ''b'', CallWrite [7], CallEndFile, CallFinalize]" "[]"]
  have second: "\<exists>mh. do_calls ?new
           [CallStartFile ''a'', CallWrite [1, 2, 3, 4, 5, 6], CallWrite [], CallEndFile,
            CallStartFile ''b'', CallWrite [7], CallEndFile, CallFinalize] = Some (Inr mh) \<and>
         pieceSize mh = 4 \<and>
         0 \<le> filePieceBuffer mh \<and> filePieceBuffer mh < pieceSize mh \<and>
         int (length (torrentPieceBuffer mh)) < pieceSize mh"
    by blast
  show ?thesis
    by (intro conjI) (rule h first second)+
qed

text \<open>
  C3. In every state \<open>mh0\<close> a hasher with a positive piece size can reach, passing the
  chunks of a partition to \<open>Write\<close> in order leaves the same state as passing their
  concatenation as one chunk, hence the same whole-file digest, per-file piece list and
  cross-file pieces afterwards. \<open>Write\<close> of \<open>a @ b\<close> is \<open>Write\<close> of \<open>a\<close> followed
  by \<open>Write\<close> of \<open>b\<close>, and \<open>Write\<close> of the empty chunk changes nothing. Chunks of
  any length, empty ones included, are covered.
\<close>

theorem Write_chunking_independent:
  assumes "0 < P"
  shows "\<exists>mh0 mh. do_calls (NewMultiHasher sha1 sha256 P) pre = Some (Inr mh0) \<and>
           write_all mh0 chunks = Some (Inr mh) \<and>
           Write mh0 (concat chunks) = Some (Inr mh) \<and>
           do_calls (NewMultiHasher sha1 sha256 P) (pre @ map CallWrite chunks) =
             do_calls (NewMultiHasher sha1 sha256 P) (pre @ [CallWrite (concat chunks)]) \<and>
           Write mh0 (a @ b) = and_then (Write mh0 a) (\<lambda>mh1. Write mh1 b) \<and>
           Write mh0 [] = Some (Inr mh0)"
proof -
  from do_calls_returns [OF accumulating_NewMultiHasher [OF assms], of sha1 sha256 pre]
  obtain mh0 where mh0: "do_calls (NewMultiHasher sha1 sha256 P) pre = Some (Inr mh0)"
    "accumulating mh0"
    by blast
  have w: "write_all mh0 chunks = Some (Inr (written mh0 (concat chunks)))"
    by (rule write_all_returns [OF mh0(2)])
  have c: "Write mh0 (concat chunks) = Some (Inr (written mh0 (concat chunks)))"
    by (rule Write_returns [OF mh0(2)])
  have "do_calls (NewMultiHasher sha1 sha256 P) (pre @ map CallWrite chunks) =
        do_calls (NewMultiHasher sha1 sha256 P) (pre @ [CallWrite (concat chunks)])"
    by (simp add: do_calls_append mh0(1) do_calls_Write w c)
  moreover have "Write mh0 (a @ b) = and_then (Write mh0 a) (\<lambda>mh1. Write mh1 b)"
    by (simp add: Write_returns mh0(2) accumulating_written written_append)
  moreover have "Write mh0 [] = Some (Inr mh0)"
    by (simp add: Write_returns mh0(2) written_Nil)
  ultimately show ?thesis using mh0(1) w c by blast
qed

theorem Write_chunking_independent_witness:
  "(0::int) < 4 \<and>
   (\<exists>mh0 mh. do_calls (NewMultiHasher (\<lambda>bs. take 2 bs) (\<lambda>bs. rev bs) 4)
              [CallStartFile ''a'', CallWrite [9]] = Some (Inr mh0) \<and>
      write_all mh0 [[1, 2], [], [3, 4, 5, 6, 7], [8]] = Some (Inr mh) \<and>
      Write mh0 [1, 2, 3, 4, 5, 6, 7, 8] = Some (Inr mh) \<and>
      Write mh0 ([1, 2, 3] @ [4, 5]) = and_then (Write mh0 [1, 2, 3]) (\<lambda>mh1. Write mh1 [4, 5]) \<and>
      Write mh0 [] = Some (Inr mh0))"
proof -
  have h: "(0::int) < 4" by simp
  have c: "concat [[1, 2], [], [3, 4, 5, 6, 7], [8]] = [1, 2, 3, 4, 5, 6, 7, 8 :: byte]" by simp
  from Write_chunking_independent [OF h, of "\<lambda>bs. take 2 bs" "\<lambda>bs. rev bs"
      "[CallStartFile ''a'', CallWrite [9]]" "[[1, 2], [], [3, 4, 5, 6, 7], [8]]"
      "[1, 2, 3]" "[4, 5]"]
  show ?thesis unfolding c using h by auto
qed

text \<open>
  C2. A run with a positive piece size returns. The piece digests of each file are the
  digests of the pieces of that file's bytes, and the cross-file stream is made of the
  digests of the pieces of all bytes of the run; in both, the pieces make up the bytes
  they are cut from, every piece but the last has exactly \<open>pieceSize\<close> bytes, and the
  last has more than 0 and at most \<open>pieceSize\<close> bytes.
\<close>

theorem piece_accounting_of_run:
  assumes "0 < P"
  shows "\<exists>mh. hash_run sha1 sha256 P files = Some (Inr mh) \<and>
           map PieceHashes (GetResults mh) =
             map (\<lambda>fi. map (\<lambda>p. hex_EncodeToString (sha256 p))
                          (pieces (nat P) (concat (snd fi)))) files \<and>
           list_all (\<lambda>fi. piece_accounting (nat P) (pieces (nat P) (concat (snd fi)))
                            (concat (snd fi))) files \<and>
           GetTorrentPieces mh = concat (map sha1 (pieces (nat P) (all_bytes files))) \<and>
           piece_accounting (nat P) (pieces (nat P) (all_bytes files)) (all_bytes files)"
proof -
  from hash_run_returns [OF assms, of sha1 sha256 files] obtain mh where
    mh: "hash_run sha1 sha256 P files = Some (Inr mh)"
      "GetTorrentPieces mh = concat (map sha1 (pieces (nat P) (all_bytes files)))"
      "GetResults mh = map (expected_result sha256 (nat P)) files"
    by blast
  have P: "0 < nat P" using assms by simp
  have "map PieceHashes (GetResults mh) =
          map (\<lambda>fi. map (\<lambda>p. hex_EncodeToString (sha256 p))
                       (pieces (nat P) (concat (snd fi)))) files"
    by (simp add: mh(3) expected_result_def comp_def)
  moreover have "list_all (\<lambda>fi. piece_accounting (nat P) (pieces (nat P) (concat (snd fi)))
                            (concat (snd fi))) files"
    by (simp add: list_all_iff piece_accounting_pieces [OF P])
  ultimately show ?thesis
    using mh(1,2) piece_accounting_pieces [OF P, of "all_bytes files"] by blast
qed

theorem piece_accounting_of_run_witness:
  "(0::int) < 4 \<and>
   (\<exists>mh. hash_run (\<lambda>bs. take 2 bs) (\<lambda>bs. rev bs) 4
           [(''a'', [[1, 2, 3], [4, 5]]), (''b'', [[6]])] = Some (Inr mh) \<and>
      map PieceHashes (GetResults mh) =
        [[hex_EncodeToString [4, 3, 2, 1], hex_EncodeToString [5]], [hex_EncodeToString [6]]] \<and>
      GetTorrentPieces mh = [1, 2, 5, 6])"
proof -
  have h: "(0::int) < 4" by simp
  let ?files = "[(''a'', [[1, 2, 3], [4, 5 :: byte]]), (''b'', [[6]])]"
  from piece_accounting_of_run [OF h, of "\<lambda>bs. take 2 bs" "\<lambda>bs. rev bs" ?files]
  obtain mh where mh: "hash_run (\<lambda>bs. take 2 bs) (\<lambda>bs. rev bs) 4 ?files = Some (Inr mh)"
    "map PieceHashes (GetResults mh) =
       map (\<lambda>fi. map (\<lambda>p. hex_EncodeToString (rev p)) (pieces (nat 4) (concat (snd fi)))) ?files"
    "GetTorrentPieces mh = concat (map (\<lambda>bs. take 2 bs) (pieces (nat 4) (all_bytes ?files)))"
    by blast
  have "map PieceHashes (GetResults mh) =
        [[hex_EncodeToString [4, 3, 2, 1], hex_EncodeToString [5]], [hex_EncodeToString [6]]]"
    unfolding mh(2) by (simp add: pieces_def full_pieces.simps partial_piece.simps)
  moreover have "GetTorrentPieces mh = [1, 2, 5, 6]"
    unfolding mh(3) by (simp add: pieces_def full_pieces.simps partial_piece.simps all_bytes_def)
  ultimately show ?thesis using h mh(1) by auto
qed

text \<open>
  C4. After \<open>Finalize\<close>, the cross-file stream of a run over \<open>total_bytes\<close> bytes with
  a positive piece size holds exactly \<open>ceil(total_bytes / pieceSize)\<close> digests, one for
  each piece (counted in bytes as well, for digests of 20 bytes); with no byte read the
  stream is empty.
\<close>

theorem torrent_piece_count:
  assumes "0 < P" and "\<forall>bs. length (sha1 bs) = 20"
  shows "\<exists>mh. hash_run sha1 sha256 P files = Some (Inr mh) \<and>
           GetTorrentPieces mh = concat (map sha1 (pieces (nat P) (all_bytes files))) \<and>
           int (length (pieces (nat P) (all_bytes files))) =
             \<lceil>real (length (all_bytes files)) / real_of_int P\<rceil> \<and>
           int (length (GetTorrentPieces mh)) =
             20 * \<lceil>real (length (all_bytes files)) / real_of_int P\<rceil> \<and>
           (length (all_bytes files) = 0 \<longrightarrow> GetTorrentPieces mh = [])"
proof -
  from hash_run_returns [OF assms(1), of sha1 sha256 files] obtain mh where
    mh: "hash_run sha1 sha256 P files = Some (Inr mh)"
      "GetTorrentPieces mh = concat (map sha1 (pieces (nat P) (all_bytes files)))"
    by blast
  have "length (concat (map sha1 ps)) = 20 * length ps" for ps
    using assms(2) by (induction ps) simp_all
  then have "int (length (GetTorrentPieces mh)) = 20 * int (length (pieces (nat P) (all_bytes files)))"
    by (simp add: mh(2))
  moreover have "length (all_bytes files) = 0 \<longrightarrow> GetTorrentPieces mh = []"
    using assms(1) by (simp add: mh(2) pieces_def full_pieces_short partial_piece_short)
  ultimately show ?thesis
    using mh length_pieces_ceiling [OF assms(1), of "all_bytes files"] by simp
qed

theorem torrent_piece_count_witness:
  "(0::int) < 4 \<and> (\<forall>bs::byte list. length (replicate 20 (of_nat (length bs) :: byte)) = 20) \<and>
   (\<exists>mh. hash_run (\<lambda>bs. replicate 20 (of_nat (length bs))) (\<lambda>bs. rev bs) 4
           [(''a'', [[1, 2, 3], [4, 5]]), (''b'', [[6]])] = Some (Inr mh) \<and>
      int (length (GetTorrentPieces mh)) = 40) \<and>
   (\<exists>mh. hash_run (\<lambda>bs. replicate 20 (of_nat (length bs))) (\<lambda>bs. rev bs) 4
           [(''a'', []), (''b'', [[]])] = Some (Inr mh) \<and>
      GetTorrentPieces mh = [])"
proof -
  have h: "(0::int) < 4" by simp
  have d: "\<forall>bs::byte list. length (replicate 20 (of_nat (length bs) :: byte)) = 20" by simp
  let ?sha1 = "\<lambda>bs::byte list. replicate 20 (of_nat (length bs) :: byte)"
  let ?f1 = "[(''a'', [[1, 2, 3], [4, 5 :: byte]]), (''b'', [[6]])]"
  let ?f2 = "[(''a'', []), (''b'', [[] :: byte list])]"
  from torrent_piece_count [OF h d, of "\<lambda>bs. rev bs" ?f1]
  obtain mh1 where 1: "hash_run ?sha1 (\<lambda>bs. rev bs) 4 ?f1 = Some (Inr mh1)"
    "int (length (GetTorrentPieces mh1)) = 20 * \<lceil>real (length (all_bytes ?f1)) / real_of_int 4\<rceil>"
    by blast
  from torrent_piece_count [OF h d, of "\<lambda>bs. rev bs" ?f2]
  obtain mh2 where 2: "hash_run ?sha1 (\<lambda>bs. rev bs) 4 ?f2 = Some (Inr mh2)"
    "length (all_bytes ?f2) = 0 \<longrightarrow> GetTorrentPieces mh2 = []"
    by blast
  have "int (length (GetTorrentPieces mh1)) = 40"
    unfolding 1(2) by (simp add: all_bytes_def)
  moreover have "GetTorrentPieces mh2 = []"
    using 2(2) by (simp add: all_bytes_def)
  ultimately show ?thesis using h d 1(1) 2(1) by auto
qed

text \<open>
  C7. Two files of 200 KiB and 100 KiB, hashed in this order with a piece size of 256 KiB
  and read in chunks of any sizes: each file has exactly one per-file piece digest, over
  the whole file, and the cross-file stream has exactly two digests, the first over the
  200 KiB of the first file followed by the first 56 KiB of the second, the second over
  the remaining 44 KiB of the second file.
\<close>

theorem two_files_scenario:
  assumes "length (concat cs1) = 200 * 1024" and "length (concat cs2) = 100 * 1024"
  shows "\<exists>mh r1 r2.
           hash_run sha1 sha256 (256 * 1024) [(p1, cs1), (p2, cs2)] = Some (Inr mh) \<and>
           GetResults mh = [r1, r2] \<and>
           PieceHashes r1 = [hex_EncodeToString (sha256 (concat cs1))] \<and>
           PieceHashes r2 = [hex_EncodeToString (sha256 (concat cs2))] \<and>
           GetTorrentPieces mh =
             sha1 (concat cs1 @ take (56 * 1024) (concat cs2)) @
             sha1 (drop (56 * 1024) (concat cs2)) \<and>
           length (concat cs1 @ take (56 * 1024) (concat cs2)) = 256 * 1024 \<and>
           length (drop (56 * 1024) (concat cs2)) = 44 * 1024"
proof -
  let ?files = "[(p1, cs1), (p2, cs2)]"
  from hash_run_returns [of "256 * 1024" sha1 sha256 ?files] obtain mh where
    mh: "hash_run sha1 sha256 (256 * 1024) ?files = Some (Inr mh)"
      "GetTorrentPieces mh = concat (map sha1 (pieces (nat (256 * 1024)) (all_bytes ?files)))"
      "GetResults mh = map (expected_result sha256 (nat (256 * 1024))) ?files"
    by auto
  have P: "nat (256 * 1024) = 262144" by simp
  have 1: "pieces 262144 (concat cs1) = [concat cs1]"
    using assms by (intro pieces_one) simp_all
  have 2: "pieces 262144 (concat cs2) = [concat cs2]"
    using assms by (intro pieces_one) simp_all
  have "pieces 262144 (concat cs1 @ concat cs2) =
          [take 262144 (concat cs1 @ concat cs2), drop 262144 (concat cs1 @ concat cs2)]"
    using assms by (intro pieces_two) simp_all
  then have 3: "pieces 262144 (all_bytes ?files) =
      [concat cs1 @ take (56 * 1024) (concat cs2), drop (56 * 1024) (concat cs2)]"
    using assms by (simp add: all_bytes_def)
  have "GetResults mh = [expected_result sha256 262144 (p1, cs1), expected_result sha256 262144 (p2, cs2)]"
    by (simp add: mh(3))
  moreover have "PieceHashes (expected_result sha256 262144 (p1, cs1)) =
      [hex_EncodeToString (sha256 (concat cs1))]"
    by (simp add: expected_result_def 1)
  moreover have "PieceHashes (expected_result sha256 262144 (p2, cs2)) =
      [hex_EncodeToString (sha256 (concat cs2))]"
    by (simp add: expected_result_def 2)
  moreover have "GetTorrentPieces mh =
      sha1 (concat cs1 @ take (56 * 1024) (concat cs2)) @ sha1 (drop (56 * 1024) (concat cs2))"
    unfolding mh(2) P 3 by simp
  moreover have "length (concat cs1 @ take (56 * 1024) (concat cs2)) = 256 * 1024"
    "length (drop (56 * 1024) (concat cs2)) = 44 * 1024"
    unfolding length_append length_take length_drop assms by simp_all
  ultimately show ?thesis using mh(1) by blast
qed

theorem two_files_scenario_witness:
  "length (concat [replicate 204800 (0::byte)]) = 200 * 1024 \<and>
   length (concat [replicate 2400 (1::byte), replicate 100000 2]) = 100 * 1024 \<and>
   (\<exists>mh r1 r2.
      hash_run (\<lambda>bs. take 20 bs) (\<lambda>bs. take 32 bs) (256 * 1024)
        [(''a'', [replicate 204800 0]), (''b'', [replicate 2400 1, replicate 100000 2])] =
        Some (Inr mh) \<and>
      GetResults mh = [r1, r2] \<and>
      PieceHashes r1 = [hex_EncodeToString (replicate 32 0)] \<and>
      PieceHashes r2 = [hex_EncodeToString (replicate 32 1)] \<and>
      GetTorrentPieces mh = replicate 20 0 @ replicate 20 2)"
proof -
  let ?cs1 = "[replicate 204800 (0::byte)]"
  let ?cs2 = "[replicate 2400 (1::byte), replicate 100000 2]"
  have h1: "length (concat ?cs1) = 200 * 1024" by simp
  have h2: "length (concat ?cs2) = 100 * 1024" by simp
  from two_files_scenario [OF h1 h2, of "\<lambda>bs. take 20 bs" "\<lambda>bs. take 32 bs" "''a''" "''b''"]
  obtain mh r1 r2 where r:
    "hash_run (\<lambda>bs. take 20 bs) (\<lambda>bs. take 32 bs) (256 * 1024) [(''a'', ?cs1), (''b'', ?cs2)] =
       Some (Inr mh)"
    "GetResults mh = [r1, r2]"
    "PieceHashes r1 = [hex_EncodeToString (take 32 (concat ?cs1))]"
    "PieceHashes r2 = [hex_EncodeToString (take 32 (concat ?cs2))]"
    "GetTorrentPieces mh =
       take 20 (concat ?cs1 @ take (56 * 1024) (concat ?cs2)) @
       take 20 (drop (56 * 1024) (concat ?cs2))"
    by blast
  have "PieceHashes r1 = [hex_EncodeToString (replicate 32 0)]"
    unfolding r(3) by simp
  moreover have "PieceHashes r2 = [hex_EncodeToString (replicate 32 1)]"
    unfolding r(4) by simp
  moreover have "GetTorrentPieces mh = replicate 20 0 @ replicate 20 2"
    unfolding r(5) by simp
  ultimately show ?thesis using h1 h2 r(1,2) by auto
qed

text \<open>
  C10. The \<open>Size\<close> of the result \<open>EndFile\<close> returns is the sum of the lengths of the
  chunks passed to \<open>Write\<close> since the preceding \<open>StartFile\<close> (a sum that fits an
  \<open>int64\<close>), whatever calls came before, and \<open>EndFile\<close> appends that result to the
  collected ones. So \<open>GetResults\<close> returns the results of a run in the order of its
  files, each with the size that was read.
\<close>

theorem result_size_and_order:
  assumes "0 < P"
    and "\<forall>fi\<in>set files. sum_list (map length (snd fi)) < 2 ^ 63"
    and "sum_list (map length cs) < 2 ^ 63"
  shows "(\<exists>mh0 mh r. do_calls (NewMultiHasher sha1 sha256 P) pre = Some (Inr mh0) \<and>
            do_calls (NewMultiHasher sha1 sha256 P) (pre @ CallStartFile relPath # map CallWrite cs) =
              Some (Inr mh) \<and>
            r = fst (EndFile mh) \<and>
            Size r = int (sum_list (map length cs)) \<and>
            RelPath r = relPath \<and>
            GetResults (snd (EndFile mh)) = GetResults mh0 @ [r]) \<and>
         (\<exists>mh. hash_run sha1 sha256 P files = Some (Inr mh) \<and>
            map RelPath (GetResults mh) = map fst files \<and>
            map Size (GetResults mh) = map (\<lambda>fi. int (sum_list (map length (snd fi)))) files)"
proof
  from do_calls_returns [OF accumulating_NewMultiHasher [OF assms(1)], of sha1 sha256 pre]
  obtain mh0 where mh0: "do_calls (NewMultiHasher sha1 sha256 P) pre = Some (Inr mh0)"
    "accumulating mh0"
    by blast
  define mh where "mh = written (StartFile mh0 relPath) (concat cs)"
  have "do_calls (NewMultiHasher sha1 sha256 P) (pre @ CallStartFile relPath # map CallWrite cs) =
          Some (Inr mh)"
    by (simp add: do_calls_append mh0(1) do_calls_Write mh_def
          write_all_returns [OF accumulating_StartFile [OF mh0(2)]])
  moreover have "int64 (int (length (concat cs))) = int (sum_list (map length cs))"
    using assms(3) by (subst int64_id) (simp_all add: length_concat)
  then have "Size (fst (EndFile mh)) = int (sum_list (map length cs))"
    by (simp add: EndFile_def Let_def mh_def written_def StartFile_def)
  moreover have "RelPath (fst (EndFile mh)) = relPath"
    by (simp add: EndFile_def Let_def mh_def written_def StartFile_def)
  moreover have "GetResults (snd (EndFile mh)) = GetResults mh0 @ [fst (EndFile mh)]"
    by (simp add: GetResults_def EndFile_def Let_def mh_def written_def StartFile_def)
  ultimately show "\<exists>mh0 mh r. do_calls (NewMultiHasher sha1 sha256 P) pre = Some (Inr mh0) \<and>
            do_calls (NewMultiHasher sha1 sha256 P) (pre @ CallStartFile relPath # map CallWrite cs) =
              Some (Inr mh) \<and>
            r = fst (EndFile mh) \<and>
            Size r = int (sum_list (map length cs)) \<and>
            RelPath r = relPath \<and>
            GetResults (snd (EndFile mh)) = GetResults mh0 @ [r]"
    using mh0(1) by blast
next
  from hash_run_returns [OF assms(1), of sha1 sha256 files] obtain mh where
    mh: "hash_run sha1 sha256 P files = Some (Inr mh)"
      "GetResults mh = map (expected_result sha256 (nat P)) files"
    by blast
  have "Size (expected_result sha256 (nat P) fi) = int (sum_list (map length (snd fi)))"
    if "fi \<in> set files" for fi
  proof -
    have "int64 (int (length (concat (snd fi)))) = int (sum_list (map length (snd fi)))"
      using assms(2) that by (subst int64_id) (simp_all add: length_concat)
    then show ?thesis by (simp add: expected_result_def)
  qed
  then have "map Size (GetResults mh) = map (\<lambda>fi. int (sum_list (map length (snd fi)))) files"
    by (simp add: mh(2))
  moreover have "map RelPath (GetResults mh) = map fst files"
    by (simp add: mh(2) expected_result_def comp_def)
  ultimately show "\<exists>mh. hash_run sha1 sha256 P files = Some (Inr mh) \<and>
            map RelPath (GetResults mh) = map fst files \<and>
            map Size (GetResults mh) = map (\<lambda>fi. int (sum_list (map length (snd fi)))) files"
    using mh(1) by blast
qed

theorem result_size_and_order_witness:
  "(0::int) < 4 \<and>
   list_all (\<lambda>fi. sum_list (map length (snd fi)) < 2 ^ 63)
     [(''a'', [[1, 2, 3], [4, 5 :: byte]]), (''b'', [[6]])] \<and>
   sum_list (map length [[1, 2, 3], [], [4 :: byte]]) < 2 ^ 63 \<and>
   (\<exists>mh0 mh r. do_calls (NewMultiHasher (\<lambda>bs. take 2 bs) (\<lambda>bs. rev bs) 4)
                 [CallStartFile ''z'', CallWrite [9], CallEndFile] = Some (Inr mh0) \<and>
      do_calls (NewMultiHasher (\<lambda>bs. take 2 bs) (\<lambda>bs. rev bs) 4)
        ([CallStartFile ''z'', CallWrite [9], CallEndFile] @
         CallStartFile ''c'' # map CallWrite [[1, 2, 3], [], [4]]) = Some (Inr mh) \<and>
      r = fst (EndFile mh) \<and> Size r = 4 \<and> RelPath r = ''c'' \<and>
      GetResults (snd (EndFile mh)) = GetResults mh0 @ [r]) \<and>
   (\<exists>mh. hash_run (\<lambda>bs. take 2 bs) (\<lambda>bs. rev bs) 4
           [(''a'', [[1, 2, 3], [4, 5]]), (''b'', [[6]])] = Some (Inr mh) \<and>
      map RelPath (GetResults mh) = [''a'', ''b''] \<and>
      map Size (GetResults mh) = [5, 1])"
proof -
  let ?files = "[(''a'', [[1, 2, 3], [4, 5 :: byte]]), (''b'', [[6]])]"
  let ?cs = "[[1, 2, 3], [], [4 :: byte]]"
  let ?pre = "[CallStartFile ''z'', CallWrite [9], CallEndFile]"
  let ?new = "NewMultiHasher (\<lambda>bs. take 2 bs) (\<lambda>bs. rev bs) 4"
  have h: "(0::int) < 4" by simp
  have f: "\<forall>fi\<in>set ?files. sum_list (map length (snd fi)) < 2 ^ 63" by simp
  have c: "sum_list (map length ?cs) < 2 ^ 63" by simp
  note w = result_size_and_order [OF h f c, of "\<lambda>bs. take 2 bs" "\<lambda>bs. rev bs" ?pre "''c''"]
  from w obtain mh0 mh r where a:
    "do_calls ?new ?pre = Some (Inr mh0)"
    "do_calls ?new (?pre @ CallStartFile ''c'' # map CallWrite ?cs) = Some (Inr mh)"
    "r = fst (EndFile mh)" "Size r = int (sum_list (map length ?cs))" "RelPath r = ''c''"
    "GetResults (snd (EndFile mh)) = GetResults mh0 @ [r]"
    by blast
  from w obtain mh' where b:
    "hash_run (\<lambda>bs. take 2 bs) (\<lambda>bs. rev bs) 4 ?files = Some (Inr mh')"
    "map RelPath (GetResults mh') = map fst ?files"
    "map Size (GetResults mh') = map (\<lambda>fi. int (sum_list (map length (snd fi)))) ?files"
    by blast
  have "Size r = 4" unfolding a(4) by simp
  moreover have "map RelPath (GetResults mh') = [''a'', ''b'']" unfolding b(2) by simp
  moreover have "map Size (GetResults mh') = [5, 1]" unfolding b(3) by simp
  moreover have "list_all (\<lambda>fi. sum_list (map length (snd fi)) < 2 ^ 63) ?files" by simp
  ultimately show ?thesis
    using h c a(1,2,3,5,6) b(1) by (intro conjI exI [of _ mh0] exI [of _ mh] exI [of _ r] exI [of _ mh'])
qed

section \<open>Mirror URLs: results\<close>

text \<open>
  C8, as the claim is worded, at a directory: the web seed of the torrent for the mirror
  \<open>https://example.com/live/\<close> is the mirror as it stands, and not the mirror joined
  with a name.
\<close>

theorem directory_web_seed_counterexample:
  "torrent_URLList True ''2026-01-01'' [''https://example.com/live/''] =
     [''https://example.com/live/''] \<and>
   torrent_URLList True ''2026-01-01'' [''https://example.com/live/''] \<noteq>
     [strings_TrimRight ''https://example.com/live/'' ''/'' @ ''/'' @ ''2026-01-01'']"
  by (simp add: torrent_URLList_def strings_TrimRight_def)

text \<open>
  C8. For a single file, a mirror that ends with the file's relative name (it has the
  name as a suffix) is the file's URL as it stands, and so is the web seed of the torrent
  for a mirror that ends with the base name; any other mirror gives the mirror without
  its trailing slashes, then a slash, then the name. For a directory the URL of a file is
  always the joined form, mirror without trailing slashes, slash, the file's name in the
  document (base name, slash, relative path), whether or not the mirror ends with the
  relative path, and it differs from the mirror itself; the web seeds of a directory are
  not joined with a name, each is the mirror without its trailing slashes followed by one
  slash. The URLs keep the order of the mirrors, with priorities 1, 2, ...
\<close>

theorem mirror_url_forms:
  "(strings_HasSuffix m fiRelPath \<longleftrightarrow> (\<exists>p. m = p @ fiRelPath)) \<and>
   (\<exists>k. m = strings_TrimRight m ''/'' @ replicate k CHR ''/'') \<and>
   (strings_TrimRight m ''/'' = [] \<or> last (strings_TrimRight m ''/'') \<noteq> CHR ''/'') \<and>
   metalink_url Separator False baseName fiRelPath m =
     (if strings_HasSuffix m fiRelPath then m
      else strings_TrimRight m ''/'' @ ''/'' @ filepath_ToSlash Separator fiRelPath) \<and>
   (Separator = CHR ''/'' \<or> Separator \<notin> set fiRelPath \<longrightarrow>
      filepath_ToSlash Separator fiRelPath = fiRelPath) \<and>
   torrent_URLList False baseName Mirrors =
     map (\<lambda>m. if strings_HasSuffix m baseName then m
               else strings_TrimRight m ''/'' @ ''/'' @ baseName) Mirrors \<and>
   torrent_URLList True baseName Mirrors =
     map (\<lambda>m. strings_TrimRight m ''/'' @ ''/'') Mirrors \<and>
   metalink_url Separator True baseName fiRelPath m =
     strings_TrimRight m ''/'' @ ''/'' @ baseName @ ''/'' @ filepath_ToSlash Separator fiRelPath \<and>
   ((\<exists>c\<in>set fiRelPath. c \<noteq> CHR ''/'' \<and> c \<noteq> Separator) \<longrightarrow>
      metalink_url Separator True baseName fiRelPath m \<noteq> m) \<and>
   map Value (metalink_urls Separator isDir baseName fiRelPath Mirrors) =
     map (metalink_url Separator isDir baseName fiRelPath) Mirrors \<and>
   map Priority (metalink_urls Separator isDir baseName fiRelPath Mirrors) =
     map (\<lambda>i. int i + 1) [0..<length Mirrors]"
proof -
  have dir: "metalink_url Separator True baseName fiRelPath m =
     strings_TrimRight m ''/'' @ ''/'' @ baseName @ ''/'' @ filepath_ToSlash Separator fiRelPath"
    by (simp add: metalink_url_def metalink_name_def Let_def)
  have differs: "(\<exists>c\<in>set fiRelPath. c \<noteq> CHR ''/'' \<and> c \<noteq> Separator) \<longrightarrow>
      metalink_url Separator True baseName fiRelPath m \<noteq> m"
  proof
    assume "\<exists>c\<in>set fiRelPath. c \<noteq> CHR ''/'' \<and> c \<noteq> Separator"
    then have "\<exists>c\<in>set (filepath_ToSlash Separator fiRelPath). c \<noteq> CHR ''/''"
      by (auto simp: filepath_ToSlash_def)
    then have "\<exists>c\<in>set (baseName @ ''/'' @ filepath_ToSlash Separator fiRelPath). c \<noteq> CHR ''/''"
      by auto
    then have "strings_TrimRight m ''/'' @ ''/'' @
        (baseName @ ''/'' @ filepath_ToSlash Separator fiRelPath) \<noteq> m"
      by (rule joined_not_verbatim)
    then show "metalink_url Separator True baseName fiRelPath m \<noteq> m"
      unfolding dir by simp
  qed
  have toslash: "Separator = CHR ''/'' \<or> Separator \<notin> set fiRelPath \<longrightarrow>
      filepath_ToSlash Separator fiRelPath = fiRelPath"
  proof (cases "Separator = CHR ''/''")
    case True
    then show ?thesis by (simp add: filepath_ToSlash_def)
  next
    case False
    show ?thesis
    proof
      assume "Separator = CHR ''/'' \<or> Separator \<notin> set fiRelPath"
      with False have "Separator \<notin> set fiRelPath" by simp
      then have "map (\<lambda>c. if c = Separator then CHR ''/'' else c) fiRelPath = fiRelPath"
        by (intro map_idI) auto
      then show "filepath_ToSlash Separator fiRelPath = fiRelPath"
        by (simp add: filepath_ToSlash_def)
    qed
  qed
  have seeds: "torrent_URLList False baseName Mirrors =
     map (\<lambda>m. if strings_HasSuffix m baseName then m
               else strings_TrimRight m ''/'' @ ''/'' @ baseName) Mirrors"
    by (simp add: torrent_URLList_def)
  have seeds_dir: "torrent_URLList True baseName Mirrors =
     map (\<lambda>m. strings_TrimRight m ''/'' @ ''/'') Mirrors"
    by (simp add: torrent_URLList_def)
  have single: "metalink_url Separator False baseName fiRelPath m =
     (if strings_HasSuffix m fiRelPath then m
      else strings_TrimRight m ''/'' @ ''/'' @ filepath_ToSlash Separator fiRelPath)"
    by (simp add: metalink_url_def metalink_name_def Let_def)
  have enum: "map snd (enumerate 0 Mirrors) = Mirrors" "map fst (enumerate 0 Mirrors) = [0..<length Mirrors]"
    by (simp_all add: enumerate_eq_zip)
  have "map Value (metalink_urls Separator isDir baseName fiRelPath Mirrors) =
     map (\<lambda>x. metalink_url Separator isDir baseName fiRelPath (snd x)) (enumerate 0 Mirrors)"
    by (simp add: metalink_urls_def comp_def case_prod_unfold)
  also have "\<dots> =
     map (metalink_url Separator isDir baseName fiRelPath) (map snd (enumerate 0 Mirrors))"
    by (simp only: map_map comp_def)
  finally have vals: "map Value (metalink_urls Separator isDir baseName fiRelPath Mirrors) =
     map (metalink_url Separator isDir baseName fiRelPath) Mirrors"
    by (simp only: enum)
  have "map Priority (metalink_urls Separator isDir baseName fiRelPath Mirrors) =
     map (\<lambda>x. int (fst x) + 1) (enumerate 0 Mirrors)"
    by (simp add: metalink_urls_def comp_def case_prod_unfold)
  also have "\<dots> = map (\<lambda>i. int i + 1) (map fst (enumerate 0 Mirrors))"
    by (simp only: map_map comp_def)
  finally have prios: "map Priority (metalink_urls Separator isDir baseName fiRelPath Mirrors) =
     map (\<lambda>i. int i + 1) [0..<length Mirrors]"
    by (simp only: enum)
  show ?thesis
    by (intro conjI)
       (rule strings_HasSuffix_iff strings_TrimRight_slashes strings_TrimRight_last
          single toslash seeds seeds_dir dir differs vals prios)+
qed

theorem mirror_url_forms_witness:
  "strings_HasSuffix ''https://e.com/f.zip'' ''f.zip'' \<and>
   metalink_url CHR ''/'' False ''f.zip'' ''f.zip'' ''https://e.com/f.zip'' = ''https://e.com/f.zip'' \<and>
   \<not> strings_HasSuffix ''https://e.com//'' ''f.zip'' \<and>
   metalink_url CHR ''/'' False ''f.zip'' ''f.zip'' ''https://e.com//'' = ''https://e.com/f.zip'' \<and>
   torrent_URLList False ''f.zip'' [''https://e.com/f.zip'', ''https://e.com//''] =
     [''https://e.com/f.zip'', ''https://e.com/f.zip''] \<and>
   torrent_URLList True ''d'' [''https://e.com/live/'', ''https://e.com/x//''] =
     [''https://e.com/live/'', ''https://e.com/x/''] \<and>
   (\<exists>c\<in>set ''a/b.txt''. c \<noteq> CHR ''/'' \<and> c \<noteq> CHR ''/'') \<and>
   metalink_url CHR ''/'' True ''d'' ''a/b.txt'' ''https://e.com/a/b.txt'' =
     ''https://e.com/a/b.txt/d/a/b.txt'' \<and>
   metalink_url CHR ''/'' True ''d'' ''a/b.txt'' ''https://e.com/a/b.txt'' \<noteq> ''https://e.com/a/b.txt''"
proof -
  note s = mirror_url_forms [of "''https://e.com/f.zip''" "''f.zip''" "CHR ''/''" "''f.zip''"
      "[''https://e.com/f.zip'', ''https://e.com//'']" False]
  note t = mirror_url_forms [of "''https://e.com//''" "''f.zip''" "CHR ''/''" "''f.zip''" "[]" False]
  note d = mirror_url_forms [of "''https://e.com/a/b.txt''" "''a/b.txt''" "CHR ''/''" "''d''" "[]" True]
  note ds = mirror_url_forms [of "''x''" "''x''" "CHR ''/''" "''d''"
      "[''https://e.com/live/'', ''https://e.com/x//'']" False]
  have sd: "torrent_URLList True ''d'' [''https://e.com/live/'', ''https://e.com/x//''] =
     [''https://e.com/live/'', ''https://e.com/x/'']"
  proof -
    have "torrent_URLList True ''d'' [''https://e.com/live/'', ''https://e.com/x//''] =
        map (\<lambda>m. strings_TrimRight m ''/'' @ ''/'') [''https://e.com/live/'', ''https://e.com/x//'']"
      using ds by blast
    then show ?thesis by (simp add: strings_TrimRight_def)
  qed
  have h1: "strings_HasSuffix ''https://e.com/f.zip'' ''f.zip''"
    by (simp add: strings_HasSuffix_def)
  have h2: "\<not> strings_HasSuffix ''https://e.com//'' ''f.zip''"
    by (simp add: strings_HasSuffix_def)
  have h3: "\<exists>c\<in>set ''a/b.txt''. c \<noteq> CHR ''/'' \<and> c \<noteq> CHR ''/''" by simp
  have tr: "strings_TrimRight ''https://e.com//'' ''/'' = ''https://e.com''"
    "strings_TrimRight ''https://e.com/a/b.txt'' ''/'' = ''https://e.com/a/b.txt''"
    "strings_TrimRight ''https://e.com/f.zip'' ''/'' = ''https://e.com/f.zip''"
    by (simp_all add: strings_TrimRight_def)
  have ts: "filepath_ToSlash CHR ''/'' ''f.zip'' = ''f.zip''"
    "filepath_ToSlash CHR ''/'' ''a/b.txt'' = ''a/b.txt''"
    using s d by simp_all
  have "metalink_url CHR ''/'' False ''f.zip'' ''f.zip'' ''https://e.com/f.zip'' = ''https://e.com/f.zip''"
    using s h1 by simp
  moreover have "metalink_url CHR ''/'' False ''f.zip'' ''f.zip'' ''https://e.com//'' = ''https://e.com/f.zip''"
    using t h2 by (simp add: tr ts)
  moreover have "torrent_URLList False ''f.zip'' [''https://e.com/f.zip'', ''https://e.com//''] =
     [''https://e.com/f.zip'', ''https://e.com/f.zip'']"
    using s h1 h2 by (simp add: tr)
  moreover have "metalink_url CHR ''/'' True ''d'' ''a/b.txt'' ''https://e.com/a/b.txt'' =
     ''https://e.com/a/b.txt/d/a/b.txt''"
    using d by (simp add: tr ts)
  moreover have "metalink_url CHR ''/'' True ''d'' ''a/b.txt'' ''https://e.com/a/b.txt'' \<noteq> ''https://e.com/a/b.txt''"
    using d h3 by blast
  ultimately show ?thesis using h1 h2 h3 sd by blast
qed

end
